theory Spec2Isabelle
  imports Main "HOL-Library.Word"
begin

unbundle bit_operations_syntax

section \<open>Build configuration and contract violations\<close>

text \<open>
  The header defines \<^verbatim>\<open>BITSET_ASSERT(x)\<close> as \<^verbatim>\<open>assert(x)\<close> when \<^verbatim>\<open>_DEBUG\<close> is
  defined and as \<^verbatim>\<open>(void)(x)\<close> otherwise. A failed assertion aborts the program; it
  is the value \<open>Inl AssertionFailed\<close> here. Behaviour the language leaves undefined
  (an index outside the storage array, a shift by at least the width of the shifted
  type) is the value \<open>Inl UndefinedBehaviour\<close>.
\<close>

datatype build = Debug | Release

datatype error = AssertionFailed | UndefinedBehaviour

definition BITSET_ASSERT :: "build \<Rightarrow> bool \<Rightarrow> (error + 'a) \<Rightarrow> error + 'a" where
  "BITSET_ASSERT b x rest = (if b = Debug \<and> \<not> x then Inl AssertionFailed else rest)"

section \<open>The functions of the standard bit header\<close>

text \<open>
  \<^verbatim>\<open>std::countr_zero\<close>, \<^verbatim>\<open>std::countr_one\<close>, \<^verbatim>\<open>std::countl_zero\<close>,
  \<^verbatim>\<open>std::bit_width\<close> and \<^verbatim>\<open>std::popcount\<close> on an unsigned integer of
  \<open>LENGTH('w)\<close> bits, as the language standard defines them. \<open>bits_lsb x\<close> lists
  the bits of \<open>x\<close> from the least significant one.
\<close>

definition bits_lsb :: "'w::len word \<Rightarrow> bool list" where
  "bits_lsb x = map (bit x) [0..<LENGTH('w)]"

definition countr_zero :: "'w::len word \<Rightarrow> nat" where
  "countr_zero x = length (takeWhile (\<lambda>b. \<not> b) (bits_lsb x))"

definition countr_one :: "'w::len word \<Rightarrow> nat" where
  "countr_one x = length (takeWhile (\<lambda>b. b) (bits_lsb x))"

definition countl_zero :: "'w::len word \<Rightarrow> nat" where
  "countl_zero x = length (takeWhile (\<lambda>b. \<not> b) (rev (bits_lsb x)))"

definition bit_width :: "'w::len word \<Rightarrow> nat" where
  "bit_width x = LENGTH('w) - countl_zero x"

definition popcount :: "'w::len word \<Rightarrow> nat" where
  "popcount x = length (filter (\<lambda>b. b) (bits_lsb x))"

section \<open>The class template BitSet\<close>

text \<open>
  The template parameter \<open>N\<close> is a parameter of every operation. \<^verbatim>\<open>size_t\<close> and
  \<^verbatim>\<open>unsigned long long\<close> are 64 bits wide and \<^verbatim>\<open>int\<close> is 32 bits wide. \<open>N\<close>
  and the bit positions are natural numbers below \<open>2 ^ 64\<close>. The sum \<^verbatim>\<open>N + 63\<close> in
  \<^verbatim>\<open>NUM_CHUNKS\<close> is taken modulo \<open>2 ^ 64\<close>, as \<^verbatim>\<open>size_t\<close> arithmetic does: for
  \<open>N\<close> above \<open>2 ^ 64 - 64\<close> it wraps, \<^verbatim>\<open>NUM_CHUNKS\<close> is 0 and the storage array has
  no element. The accumulator \<^verbatim>\<open>pos\<close> of the scan never exceeds \<open>N + 63\<close> before
  the scan returns, and does not wrap when \<^verbatim>\<open>N + 63\<close> does not.

  \<^verbatim>\<open>Inner_t\<close> is the type \<open>'w word\<close>; \<open>Inner_bits N\<close> is the width that the
  nested \<^verbatim>\<open>std::conditional_t\<close> selects for \<open>N\<close>.
\<close>

definition Inner_bits :: "nat \<Rightarrow> nat" where
  "Inner_bits N = (if N > 32 then 64 else if N > 16 then 32 else if N > 8 then 16 else 8)"

definition LAST_MASK :: "nat \<Rightarrow> 64 word" where
  "LAST_MASK N = NOT (push_bit ((N - 1) mod 64) (NOT 1))"

definition NUM_CHUNKS :: "nat \<Rightarrow> nat" where
  "NUM_CHUNKS N = ((N + 63) mod 2 ^ 64) div 64"

record 'inner BitSet =
  m_storage :: "'inner list"

text \<open>
  What the C++ types fix and a list of words does not: the template is instantiated
  with a \<^verbatim>\<open>size_t\<close> \<open>N > 0\<close>, the words have the width selected for \<open>N\<close>, and the
  array has \<open>NUM_CHUNKS\<close> elements.
\<close>

definition BitSet_typed :: "nat \<Rightarrow> 'w::len word BitSet \<Rightarrow> bool" where
  "BitSet_typed N s \<longleftrightarrow>
     0 < N \<and> N < 2 ^ 64 \<and> LENGTH('w) = Inner_bits N \<and>
     length (m_storage s) = NUM_CHUNKS N"

text \<open>
  The well-typed states of the widths for which \<^verbatim>\<open>N + 63\<close> does not wrap, that is
  \<open>N \<le> 2 ^ 64 - 64\<close>.
\<close>

definition in_range :: "nat \<Rightarrow> 'w::len word BitSet \<Rightarrow> bool" where
  "in_range N s \<longleftrightarrow> BitSet_typed N s \<and> N + 63 < 2 ^ 64"

subsection \<open>Scanning\<close>

text \<open>
  The range-based \<^verbatim>\<open>for\<close> of \<^verbatim>\<open>first_func_impl\<close>, with \<open>pos\<close> as the
  accumulator; \<^verbatim>\<open>sizeof(Inner_t) * 8\<close> is \<open>LENGTH('w)\<close>.
\<close>

fun first_func_loop :: "('w::len word \<Rightarrow> nat) \<Rightarrow> nat \<Rightarrow> nat \<Rightarrow> 'w word list \<Rightarrow> nat" where
  "first_func_loop COUNT_FUNC N pos [] = N"
| "first_func_loop COUNT_FUNC N pos (chunk # rest) =
     (let chunk_pos = COUNT_FUNC chunk;
          pos = pos + chunk_pos
      in if chunk_pos \<noteq> LENGTH('w) then pos
         else first_func_loop COUNT_FUNC N pos rest)"

definition first_func_impl :: "('w::len word \<Rightarrow> nat) \<Rightarrow> nat \<Rightarrow> 'w word BitSet \<Rightarrow> nat" where
  "first_func_impl COUNT_FUNC N s = first_func_loop COUNT_FUNC N 0 (m_storage s)"

subsection \<open>Constructors\<close>

definition BitSet_default :: "nat \<Rightarrow> 'w::len word BitSet" where
  "BitSet_default N = \<lparr>m_storage = replicate (NUM_CHUNKS N) 0\<rparr>"

text \<open>
  \<^verbatim>\<open>BitSet(Storage_t storage) requires(N > 64)\<close>: the assertion compares the
  \<^verbatim>\<open>int\<close> that \<^verbatim>\<open>std::bit_width\<close> returns with the \<^verbatim>\<open>size_t\<close> \<^verbatim>\<open>LAST_MASK\<close>.
  Both builds evaluate the asserted expression, which reads
  \<^verbatim>\<open>storage[NUM_CHUNKS - 1]\<close>; an array with no element has no such word.
\<close>

definition BitSet_of_array :: "build \<Rightarrow> nat \<Rightarrow> 'w::len word list \<Rightarrow> error + 'w word BitSet" where
  "BitSet_of_array b N storage =
     (if NUM_CHUNKS N = 0 then Inl UndefinedBehaviour
      else BITSET_ASSERT b (bit_width (storage ! (NUM_CHUNKS N - 1)) \<le> unat (LAST_MASK N))
             (Inr \<lparr>m_storage = storage\<rparr>))"

text \<open>\<^verbatim>\<open>BitSet(Inner_t storage) requires(N <= 64)\<close>.\<close>

definition BitSet_of_word :: "build \<Rightarrow> nat \<Rightarrow> 'w::len word \<Rightarrow> error + 'w word BitSet" where
  "BitSet_of_word b N storage =
     BITSET_ASSERT b (bit_width storage \<le> N) (Inr \<lparr>m_storage = [storage]\<rparr>)"

subsection \<open>Accessors\<close>

text \<open>
  \<^verbatim>\<open>all()\<close> takes \<^verbatim>\<open>std::prev(m_storage.end())\<close> and \<^verbatim>\<open>m_storage.back()\<close>, which
  an array with no element does not have.
\<close>

definition all :: "nat \<Rightarrow> 'w::len word BitSet \<Rightarrow> error + bool" where
  "all N s =
     (if NUM_CHUNKS N = 0 then Inl UndefinedBehaviour
      else Inr (list_all (\<lambda>val. val = - 1) (butlast (m_storage s)) \<and>
                (ucast (last (m_storage s)) :: 64 word) = LAST_MASK N))"

definition any :: "'w::len word BitSet \<Rightarrow> bool" where
  "any s \<longleftrightarrow> list_ex (\<lambda>val. val \<noteq> 0) (m_storage s)"

definition none :: "'w::len word BitSet \<Rightarrow> bool" where
  "none s \<longleftrightarrow> list_all (\<lambda>val. val = 0) (m_storage s)"

text \<open>
  \<^verbatim>\<open>std::accumulate\<close> is called with the initial value \<^verbatim>\<open>0\<close>, so its accumulator
  is an \<^verbatim>\<open>int\<close>: each step converts it to the \<^verbatim>\<open>size_t\<close> parameter of the lambda,
  adds the population count, and converts the \<^verbatim>\<open>size_t\<close> result back to \<^verbatim>\<open>int\<close>.
\<close>

definition count :: "'w::len word BitSet \<Rightarrow> 64 word" where
  "count s =
     scast (fold (\<lambda>val (acc :: 32 word). ucast ((scast acc :: 64 word) + of_nat (popcount val)))
              (m_storage s) 0)"

definition first_one :: "nat \<Rightarrow> 'w::len word BitSet \<Rightarrow> nat" where
  "first_one N s = first_func_impl countr_zero N s"

definition first_zero :: "nat \<Rightarrow> 'w::len word BitSet \<Rightarrow> nat" where
  "first_zero N s = first_func_impl countr_one N s"

text \<open>
  \<^verbatim>\<open>operator[]\<close>. In the branch for \<open>N \<le> 64\<close> the word is promoted before the
  shift: to \<^verbatim>\<open>int\<close> when \<^verbatim>\<open>Inner_t\<close> is narrower than \<^verbatim>\<open>int\<close>, so the shift is
  defined for \<open>pos\<close> below \<open>max 32 LENGTH('w)\<close>.
\<close>

definition operator_index :: "build \<Rightarrow> nat \<Rightarrow> 'w::len word BitSet \<Rightarrow> nat \<Rightarrow> error + bool" where
  "operator_index b N s pos =
     BITSET_ASSERT b (pos < N)
       (if N > 64 then
          (let chunk = pos div 64; shift = pos mod 64
           in if chunk < NUM_CHUNKS N
              then Inr (drop_bit shift (m_storage s ! chunk) \<noteq> 0)
              else Inl UndefinedBehaviour)
        else if pos < max 32 LENGTH('w)
          then Inr (drop_bit pos (m_storage s ! 0) AND 1 \<noteq> 0)
          else Inl UndefinedBehaviour)"

definition test :: "build \<Rightarrow> nat \<Rightarrow> 'w::len word BitSet \<Rightarrow> nat \<Rightarrow> error + bool" where
  "test b N s pos = operator_index b N s pos"

subsection \<open>Modifiers\<close>

text \<open>
  \<^verbatim>\<open>set()\<close>: the loop over the words before the last, then the last word. The
  bound \<^verbatim>\<open>NUM_CHUNKS - 1\<close> is a \<^verbatim>\<open>size_t\<close>: when \<^verbatim>\<open>NUM_CHUNKS\<close> is 0 it wraps to
  \<open>2 ^ 64 - 1\<close>, and the first iteration writes \<^verbatim>\<open>m_storage[0]\<close> of an array with
  no element. \<^verbatim>\<open>flip()\<close> has the same loop.
\<close>

definition set_all :: "nat \<Rightarrow> 'w::len word BitSet \<Rightarrow> error + 'w word BitSet" where
  "set_all N s =
     (if NUM_CHUNKS N = 0 then Inl UndefinedBehaviour
      else
        (let st = fold (\<lambda>i st. st[i := - 1]) [0..<NUM_CHUNKS N - 1] (m_storage s)
         in Inr (s\<lparr>m_storage := st[NUM_CHUNKS N - 1 := ucast (LAST_MASK N)]\<rparr>)))"

text \<open>
  \<^verbatim>\<open>~x\<close> as a 64-bit operand of \<^verbatim>\<open>&\<close>: a word narrower than \<^verbatim>\<open>int\<close> is promoted
  to \<^verbatim>\<open>int\<close> first, and the negative result is sign-extended; a 32-bit or 64-bit
  word is complemented in its own type and zero-extended.
\<close>

definition complement_as_size_t :: "'w::len word \<Rightarrow> 64 word" where
  "complement_as_size_t x = (if LENGTH('w) < 32 then NOT (ucast x) else ucast (NOT x))"

definition flip :: "nat \<Rightarrow> 'w::len word BitSet \<Rightarrow> error + 'w word BitSet" where
  "flip N s =
     (if NUM_CHUNKS N = 0 then Inl UndefinedBehaviour
      else
        (let st = fold (\<lambda>i st. st[i := NOT (st ! i)]) [0..<NUM_CHUNKS N - 1] (m_storage s)
         in Inr (s\<lparr>m_storage :=
                    st[NUM_CHUNKS N - 1 :=
                         ucast (complement_as_size_t (st ! (NUM_CHUNKS N - 1))
                                AND LAST_MASK N)]\<rparr>)))"

definition reset :: "'w::len word BitSet \<Rightarrow> 'w word BitSet" where
  "reset s = s\<lparr>m_storage := map (\<lambda>chunk. 0) (m_storage s)\<rparr>"

text \<open>
  \<^verbatim>\<open>reset(pos)\<close>: the right-hand sides are computed in 64 bits (\<^verbatim>\<open>1ull\<close>) and the
  compound assignment converts the result back to \<^verbatim>\<open>Inner_t\<close>.
\<close>

definition reset_pos :: "build \<Rightarrow> nat \<Rightarrow> 'w::len word BitSet \<Rightarrow> nat \<Rightarrow> error + 'w word BitSet" where
  "reset_pos b N s pos =
     BITSET_ASSERT b (pos < N)
       (if N > 64 then
          (let chunk = pos div 64; shift = pos mod 64
           in if chunk < NUM_CHUNKS N then
                (if chunk = NUM_CHUNKS N - 1
                 then Inr (s\<lparr>m_storage := (m_storage s)[chunk :=
                        ucast (ucast (m_storage s ! chunk)
                               AND (NOT (push_bit shift (1 :: 64 word)) AND LAST_MASK N))]\<rparr>)
                 else Inr (s\<lparr>m_storage := (m_storage s)[chunk :=
                        ucast (ucast (m_storage s ! chunk)
                               AND NOT (push_bit shift (1 :: 64 word)))]\<rparr>))
              else Inl UndefinedBehaviour)
        else if pos < 64
          then Inr (s\<lparr>m_storage := (m_storage s)[0 :=
                 ucast (ucast (m_storage s ! 0)
                        AND (NOT (push_bit pos (1 :: 64 word)) AND LAST_MASK N))]\<rparr>)
          else Inl UndefinedBehaviour)"

definition set_pos :: "build \<Rightarrow> nat \<Rightarrow> 'w::len word BitSet \<Rightarrow> nat \<Rightarrow> bool \<Rightarrow> error + 'w word BitSet" where
  "set_pos b N s pos v =
     BITSET_ASSERT b (pos < N)
       (if v = False then reset_pos b N s pos
        else if N > 64 then
          (let chunk = pos div 64; shift = pos mod 64
           in if chunk < NUM_CHUNKS N
              then Inr (s\<lparr>m_storage := (m_storage s)[chunk :=
                     ucast (ucast (m_storage s ! chunk) OR push_bit shift (1 :: 64 word))]\<rparr>)
              else Inl UndefinedBehaviour)
        else if pos < 64
          then Inr (s\<lparr>m_storage := (m_storage s)[0 :=
                 m_storage s ! 0 OR ucast (push_bit pos (1 :: 64 word))]\<rparr>)
          else Inl UndefinedBehaviour)"

section \<open>The logical bit sequence and the canonical form\<close>

text \<open>
  The data model of the container: bit index \<open>i\<close> lives in word \<open>i div 64\<close> at
  shift \<open>i mod 64\<close> (for \<open>N \<le> 64\<close> that is bit \<open>i\<close> of the single word). A padding
  bit is a bit of the final word whose position lies at or beyond \<open>N\<close>; the
  canonical form has all of them 0. A storage array with no element has no final
  word and no padding bit.
\<close>

definition logical_bit :: "'w::len word BitSet \<Rightarrow> nat \<Rightarrow> bool" where
  "logical_bit s i = bit (m_storage s ! (i div 64)) (i mod 64)"

definition canonical :: "nat \<Rightarrow> 'w::len word BitSet \<Rightarrow> bool" where
  "canonical N s \<longleftrightarrow>
     (\<forall>j \<in> {0..<LENGTH('w)}.
        m_storage s \<noteq> [] \<and> N \<le> 64 * (NUM_CHUNKS N - 1) + j \<longrightarrow>
        \<not> bit (last (m_storage s)) j)"

section \<open>Arithmetic of the template constants\<close>

lemma Inner_bits_le: "Inner_bits N \<le> 64"
  by (simp add: Inner_bits_def)

lemma Inner_bits_ge: "N \<le> 64 \<Longrightarrow> N \<le> Inner_bits N"
  by (simp add: Inner_bits_def)

lemma Inner_bits_big: "64 < N \<Longrightarrow> Inner_bits N = 64"
  by (simp add: Inner_bits_def)

lemma NUM_CHUNKS_nowrap: "N + 63 < 2 ^ 64 \<Longrightarrow> NUM_CHUNKS N = (N + 63) div 64"
  by (simp add: NUM_CHUNKS_def)

lemma NUM_CHUNKS_wrapped:
  assumes "N < 2 ^ 64" and "\<not> N + 63 < 2 ^ 64"
  shows "NUM_CHUNKS N = 0"
proof -
  obtain r where r: "N + 63 = 2 ^ 64 + r" and "r < 63"
    using assms by (intro that [of "N + 63 - 2 ^ 64"]) simp_all
  then have "(N + 63) mod 2 ^ 64 = r" by simp
  then show ?thesis using \<open>r < 63\<close> by (simp add: NUM_CHUNKS_def)
qed

lemma NUM_CHUNKS_small: "0 < N \<Longrightarrow> N \<le> 64 \<Longrightarrow> NUM_CHUNKS N = 1"
  by (simp add: NUM_CHUNKS_nowrap)

lemma NUM_CHUNKS_pos: "0 < N \<Longrightarrow> N + 63 < 2 ^ 64 \<Longrightarrow> 0 < NUM_CHUNKS N"
  by (simp add: NUM_CHUNKS_nowrap)

lemma last_base:
  "0 < N \<Longrightarrow> N + 63 < 2 ^ 64 \<Longrightarrow> 64 * (NUM_CHUNKS N - 1) + (N - 1) mod 64 + 1 = N"
proof -
  assume "0 < N" and n: "N + 63 < 2 ^ 64"
  then obtain M where M: "N = Suc M" by (cases N) auto
  have "(M + 64) div 64 = M div 64 + 1" by simp
  then have "(N + 63) div 64 - 1 = M div 64" by (simp add: M)
  then have "NUM_CHUNKS N - 1 = M div 64" by (simp only: NUM_CHUNKS_nowrap [OF n])
  then show ?thesis using M by simp
qed

lemma bit_LAST_MASK: "bit (LAST_MASK N) j \<longleftrightarrow> j \<le> (N - 1) mod 64"
proof -
  have "(N - Suc 0) mod 64 < 64" by simp
  then show ?thesis
    unfolding LAST_MASK_def by (simp add: bit_simps) arith
qed

lemma bit_LAST_MASK_pos:
  "0 < N \<Longrightarrow> N + 63 < 2 ^ 64 \<Longrightarrow>
     bit (LAST_MASK N) j \<longleftrightarrow> 64 * (NUM_CHUNKS N - 1) + j < N"
  using last_base [of N] by (simp add: bit_LAST_MASK) arith

section \<open>Trailing runs and the scan loop\<close>

lemma takeWhile_upt_char:
  "length (takeWhile P (map f [0..<n])) = k \<longleftrightarrow>
     k \<le> n \<and> (\<forall>j<k. P (f j)) \<and> (k < n \<longrightarrow> \<not> P (f k))"
proof -
  let ?xs = "map f [0..<n]"
  let ?m = "length (takeWhile P ?xs)"
  have le: "?m \<le> n" using length_takeWhile_le [of P ?xs] by simp
  have pre: "P (f j)" if "j < ?m" for j
  proof -
    have "takeWhile P ?xs ! j \<in> set (takeWhile P ?xs)" using that by (rule nth_mem)
    then have "P (takeWhile P ?xs ! j)" by (rule set_takeWhileD [THEN conjunct2])
    moreover have "takeWhile P ?xs ! j = ?xs ! j" using that by (rule takeWhile_nth)
    ultimately show ?thesis using that le by simp
  qed
  have stop: "\<not> P (f ?m)" if "?m < n"
    using nth_length_takeWhile [of P ?xs] that by simp
  show ?thesis
  proof
    assume "?m = k"
    then show "k \<le> n \<and> (\<forall>j<k. P (f j)) \<and> (k < n \<longrightarrow> \<not> P (f k))"
      using le pre stop by blast
  next
    assume k: "k \<le> n \<and> (\<forall>j<k. P (f j)) \<and> (k < n \<longrightarrow> \<not> P (f k))"
    have "\<not> ?m < k"
    proof
      assume "?m < k"
      then show False using k stop by auto
    qed
    moreover have "\<not> k < ?m"
    proof
      assume "k < ?m"
      then show False using k pre le by auto
    qed
    ultimately show "?m = k" by arith
  qed
qed

lemma countr_zero_char:
  "countr_zero (x :: 'w::len word) = k \<longleftrightarrow>
     k \<le> LENGTH('w) \<and> (\<forall>j<k. \<not> bit x j) \<and> (k < LENGTH('w) \<longrightarrow> bit x k)"
  unfolding countr_zero_def bits_lsb_def by (simp add: takeWhile_upt_char)

lemma countr_one_char:
  "countr_one (x :: 'w::len word) = k \<longleftrightarrow>
     k \<le> LENGTH('w) \<and> (\<forall>j<k. bit x j) \<and> (k < LENGTH('w) \<longrightarrow> \<not> bit x k)"
  unfolding countr_one_def bits_lsb_def by (simp add: takeWhile_upt_char)

lemma countr_zero_le: "countr_zero (x :: 'w::len word) \<le> LENGTH('w)"
  using countr_zero_char [of x "countr_zero x"] by simp

lemma countr_one_le: "countr_one (x :: 'w::len word) \<le> LENGTH('w)"
  using countr_one_char [of x "countr_one x"] by simp

lemma word_zero_iff: "(x :: 'w::len word) = 0 \<longleftrightarrow> (\<forall>j<LENGTH('w). \<not> bit x j)"
  by (auto intro: bit_word_eqI)

lemma word_ones_iff: "(x :: 'w::len word) = - 1 \<longleftrightarrow> (\<forall>j<LENGTH('w). bit x j)"
  by (auto intro: bit_word_eqI)

lemma countr_zero_full: "countr_zero (x :: 'w::len word) = LENGTH('w) \<longleftrightarrow> x = 0"
  by (simp add: countr_zero_char word_zero_iff)

lemma countr_one_full: "countr_one (x :: 'w::len word) = LENGTH('w) \<longleftrightarrow> x = - 1"
  by (simp add: countr_one_char word_ones_iff)

lemma first_func_loop_char:
  "first_func_loop f N pos (xs :: 'w::len word list) =
     (if \<forall>x\<in>set xs. f x = LENGTH('w) then N
      else pos + sum_list (map f (takeWhile (\<lambda>x. f x = LENGTH('w)) xs))
               + f (hd (dropWhile (\<lambda>x. f x = LENGTH('w)) xs)))"
  by (induction xs arbitrary: pos) (simp_all add: Let_def)

lemma sum_list_full:
  "sum_list (map f (takeWhile (\<lambda>x. f x = (W::nat)) xs)) = W * length (takeWhile (\<lambda>x. f x = W) xs)"
  by (induction xs) simp_all

text \<open>The first word that is not skipped, with its index.\<close>

lemma first_not_full:
  assumes "\<not> (\<forall>x\<in>set xs. P x)"
  defines "k \<equiv> length (takeWhile P xs)"
  shows "k < length xs" and "hd (dropWhile P xs) = xs ! k" and "\<not> P (xs ! k)"
    and "\<forall>i<k. P (xs ! i)"
proof -
  have "dropWhile P xs \<noteq> []" using assms(1) by (simp add: dropWhile_eq_Nil_conv)
  then have "0 < length (dropWhile P xs)" by simp
  moreover have "length (takeWhile P xs) + length (dropWhile P xs) = length xs"
  proof -
    have "length (takeWhile P xs) + length (dropWhile P xs)
            = length (takeWhile P xs @ dropWhile P xs)"
      by (simp only: length_append)
    also have "\<dots> = length xs" by (simp only: takeWhile_dropWhile_id)
    finally show ?thesis .
  qed
  ultimately show k: "k < length xs" unfolding k_def by arith
  show "hd (dropWhile P xs) = xs ! k"
    using k unfolding k_def by (simp add: hd_dropWhile hd_drop_conv_nth dropWhile_eq_drop)
  show "\<not> P (xs ! k)" using k unfolding k_def by (rule nth_length_takeWhile)
  show "\<forall>i<k. P (xs ! i)"
  proof (intro allI impI)
    fix i assume "i < k"
    then have "takeWhile P xs ! i \<in> set (takeWhile P xs)" unfolding k_def by (rule nth_mem)
    then have "P (takeWhile P xs ! i)" by (rule set_takeWhileD [THEN conjunct2])
    then show "P (xs ! i)" using \<open>i < k\<close> by (simp add: takeWhile_nth k_def)
  qed
qed

section \<open>Well-typed states\<close>

lemma in_range_iff:
  "in_range N (s :: 'w::len word BitSet) \<longleftrightarrow>
     0 < N \<and> N + 63 < 2 ^ 64 \<and> LENGTH('w) = Inner_bits N \<and>
     length (m_storage s) = NUM_CHUNKS N"
  by (auto simp: in_range_def BitSet_typed_def)

lemma in_rangeI: "BitSet_typed N s \<Longrightarrow> N + 63 < 2 ^ 64 \<Longrightarrow> in_range N s"
  by (simp add: in_range_def)

lemma typed_wrapped:
  "BitSet_typed N s \<Longrightarrow> \<not> N + 63 < 2 ^ 64 \<Longrightarrow> NUM_CHUNKS N = 0 \<and> m_storage s = []"
  using NUM_CHUNKS_wrapped [of N] by (simp add: BitSet_typed_def)

lemma in_range_chunks: "in_range N s \<Longrightarrow> NUM_CHUNKS N \<noteq> 0"
  using NUM_CHUNKS_pos [of N] by (simp add: in_range_iff)

lemma typed_nonempty: "in_range N s \<Longrightarrow> m_storage s \<noteq> []"
  using NUM_CHUNKS_pos [of N] by (auto simp: in_range_iff)

lemma typed_W_le: "in_range N (s :: 'w::len word BitSet) \<Longrightarrow> LENGTH('w) \<le> 64"
  by (simp add: in_range_iff Inner_bits_le)

lemma typed_W64:
  "in_range N (s :: 'w::len word BitSet) \<Longrightarrow> 1 < length (m_storage s) \<Longrightarrow> LENGTH('w) = 64"
proof -
  assume t: "in_range N s" and l: "1 < length (m_storage s)"
  have "64 < N"
  proof (rule ccontr)
    assume "\<not> 64 < N"
    then have "NUM_CHUNKS N = 1" using t by (simp add: NUM_CHUNKS_small in_range_iff)
    then show False using t l by (simp add: in_range_iff)
  qed
  then show ?thesis using t by (simp add: in_range_iff Inner_bits_big)
qed

lemma typed_lower: "in_range N s \<Longrightarrow> 64 * (length (m_storage s) - 1) < N"
  using last_base [of N] by (simp add: in_range_iff)

lemma typed_upper:
  "in_range N (s :: 'w::len word BitSet) \<Longrightarrow> N \<le> 64 * (length (m_storage s) - 1) + LENGTH('w)"
proof -
  assume t: "in_range N s"
  show ?thesis
  proof (cases "64 < N")
    case True
    then have "LENGTH('w) = 64" using t by (simp add: in_range_iff Inner_bits_big)
    moreover have "(N - 1) mod 64 < 64" by simp
    ultimately show ?thesis using last_base [of N] t by (simp add: in_range_iff)
  next
    case False
    then show ?thesis using t by (simp add: in_range_iff NUM_CHUNKS_small Inner_bits_ge)
  qed
qed

lemma typed_width_mult:
  "in_range N (s :: 'w::len word BitSet) \<Longrightarrow> k < length (m_storage s) \<Longrightarrow> LENGTH('w) * k = 64 * k"
  using typed_W64 [of N s] by (cases "k = 0") auto

lemma canonical_iff:
  assumes "in_range N (s :: 'w::len word BitSet)"
  shows "canonical N s \<longleftrightarrow>
           (\<forall>j. bit (last (m_storage s)) j \<longrightarrow> 64 * (length (m_storage s) - 1) + j < N)"
proof -
  have len: "length (m_storage s) = NUM_CHUNKS N" using assms by (simp add: in_range_iff)
  show ?thesis
  proof
    assume can: "canonical N s"
    show "\<forall>j. bit (last (m_storage s)) j \<longrightarrow> 64 * (length (m_storage s) - 1) + j < N"
    proof (intro allI impI)
      fix j assume b: "bit (last (m_storage s)) j"
      then have "j \<in> {0..<LENGTH('w)}" using bit_imp_le_length [OF b] by simp
      then have "\<not> N \<le> 64 * (NUM_CHUNKS N - 1) + j"
        using can b typed_nonempty [OF assms] unfolding canonical_def by blast
      then show "64 * (length (m_storage s) - 1) + j < N" by (simp add: len)
    qed
  next
    assume "\<forall>j. bit (last (m_storage s)) j \<longrightarrow> 64 * (length (m_storage s) - 1) + j < N"
    then show "canonical N s" unfolding canonical_def len by (auto simp: not_le)
  qed
qed

lemma logical_bit_at:
  "c < 64 \<Longrightarrow> logical_bit s (64 * k + c) = bit (m_storage s ! k) c"
  by (simp add: logical_bit_def)

text \<open>Where the scan stops.\<close>

lemma scan_result:
  assumes t: "in_range N (s :: 'w::len word BitSet)"
  shows "first_func_impl f N s =
           (if \<forall>x\<in>set (m_storage s). f x = LENGTH('w) then N
            else 64 * length (takeWhile (\<lambda>x. f x = LENGTH('w)) (m_storage s))
                 + f (m_storage s ! length (takeWhile (\<lambda>x. f x = LENGTH('w)) (m_storage s))))"
proof (cases "\<forall>x\<in>set (m_storage s). f x = LENGTH('w)")
  case True
  then show ?thesis by (simp add: first_func_impl_def first_func_loop_char)
next
  case False
  note nf = first_not_full [OF False]
  show ?thesis
    using False nf(2) typed_width_mult [OF t nf(1)]
    by (auto simp: first_func_impl_def first_func_loop_char sum_list_full)
qed

section \<open>Bits of a well-typed state\<close>

lemma div64_unique: "64 * k \<le> (i::nat) \<Longrightarrow> i < 64 * k + 64 \<Longrightarrow> i div 64 = k \<and> i mod 64 = i - 64 * k"
proof -
  assume a: "64 * k \<le> i" and b: "i < 64 * k + 64"
  have "i < (k + 1) * 64" using b by simp
  then have "i div 64 < k + 1" by (rule less_mult_imp_div_less)
  moreover have "k \<le> i div 64"
  proof -
    have "k * 64 div 64 \<le> i div 64" using a by (intro div_le_mono) (simp add: mult.commute)
    then show ?thesis by simp
  qed
  ultimately have k: "i div 64 = k" by simp
  have "i = 64 * (i div 64) + i mod 64" by simp
  then have "i mod 64 = i - 64 * k" using k by arith
  then show ?thesis using k by simp
qed

lemma typed_index:
  assumes t: "in_range N (s :: 'w::len word BitSet)" and i: "i < N"
  shows "i div 64 < length (m_storage s)"
    and "i div 64 = length (m_storage s) - 1 \<or> LENGTH('w) = 64"
    and "i mod 64 < LENGTH('w)"
proof -
  have ne: "0 < length (m_storage s)" using typed_nonempty [OF t] by simp
  have "i < 64 * (length (m_storage s) - 1) + 64"
    using typed_upper [OF t] typed_W_le [OF t] i by arith
  then have "i < length (m_storage s) * 64" using ne by (cases "length (m_storage s)") simp_all
  then show d: "i div 64 < length (m_storage s)" by (rule less_mult_imp_div_less)
  show "i div 64 = length (m_storage s) - 1 \<or> LENGTH('w) = 64"
    using d typed_W64 [OF t] by (cases "1 < length (m_storage s)") auto
  show "i mod 64 < LENGTH('w)"
  proof (cases "1 < length (m_storage s)")
    case True
    then show ?thesis using typed_W64 [OF t] by simp
  next
    case False
    then have "N \<le> LENGTH('w)" using typed_upper [OF t] ne by simp
    moreover have "i mod 64 \<le> i" by simp
    ultimately show ?thesis using i by arith
  qed
qed

lemma bit_last_LAST_MASK:
  assumes t: "in_range N (s :: 'w::len word BitSet)"
  shows "(ucast (last (m_storage s)) :: 64 word) = LAST_MASK N \<longleftrightarrow>
           (\<forall>j<64. bit (last (m_storage s)) j \<longleftrightarrow> 64 * (length (m_storage s) - 1) + j < N)"
proof -
  have len: "length (m_storage s) = NUM_CHUNKS N" and N: "0 < N" and B: "N + 63 < 2 ^ 64"
    using t by (simp_all add: in_range_iff)
  show ?thesis
    by (auto simp add: bit_eq_iff [where ?'a = "64 word"] bit_ucast_iff bit_LAST_MASK_pos [OF N B] len
             dest: bit_imp_le_length)
qed

lemma list_all_butlast:
  "list_all P (butlast xs) \<longleftrightarrow> (\<forall>q<length xs - 1. P (xs ! q))"
  by (simp add: list_all_length nth_butlast)

lemma last_word_bit:
  assumes t: "in_range N s" and j: "j < 64"
  shows "logical_bit s (64 * (length (m_storage s) - 1) + j) = bit (last (m_storage s)) j"
  using j by (simp add: logical_bit_at last_conv_nth typed_nonempty [OF t])

lemma all_in_range:
  "in_range N s \<Longrightarrow>
     all N s = Inr (list_all (\<lambda>val. val = - 1) (butlast (m_storage s)) \<and>
                    (ucast (last (m_storage s)) :: 64 word) = LAST_MASK N)"
  using in_range_chunks [of N s] by (simp add: all_def)

lemma all_imp_bits:
  assumes t: "in_range N (s :: 'w::len word BitSet)" and a: "all N s = Inr True" and i: "i < N"
  shows "logical_bit s i"
proof -
  let ?xs = "m_storage s"
  note ix = typed_index [OF t i]
  show ?thesis
  proof (cases "i div 64 = length ?xs - 1")
    case True
    have "64 * (i div 64) + i mod 64 = i" by simp
    then have "i = 64 * (length ?xs - 1) + i mod 64" unfolding True by simp
    moreover have "bit (last ?xs) (i mod 64)"
      using a i calculation by (simp add: all_in_range [OF t] bit_last_LAST_MASK [OF t])
    ultimately show ?thesis using last_word_bit [OF t, of "i mod 64"] by simp
  next
    case False
    then have "i div 64 < length ?xs - 1" using ix(1) by simp
    then have "?xs ! (i div 64) = - 1" using a by (simp add: all_in_range [OF t] list_all_butlast)
    then show ?thesis using ix(3) by (simp add: logical_bit_def)
  qed
qed

lemma bits_imp_all:
  assumes t: "in_range N (s :: 'w::len word BitSet)" and c: "canonical N s"
    and b: "\<forall>i<N. logical_bit s i"
  shows "all N s = Inr True"
proof -
  let ?xs = "m_storage s"
  have "?xs ! q = - 1" if q: "q < length ?xs - 1" for q
  proof -
    have W: "LENGTH('w) = 64" using typed_W64 [OF t] q by simp
    have "bit (?xs ! q) j" if "j < 64" for j
    proof -
      have "64 * q + j < 64 * (length ?xs - 1)" using q that by arith
      then have "64 * q + j < N" using typed_lower [OF t] by arith
      then have "logical_bit s (64 * q + j)" using b by simp
      then show ?thesis using that by (simp add: logical_bit_at)
    qed
    then show ?thesis by (simp add: word_ones_iff W)
  qed
  moreover have "bit (last ?xs) j \<longleftrightarrow> 64 * (length ?xs - 1) + j < N" if "j < 64" for j
  proof
    assume "bit (last ?xs) j"
    then show "64 * (length ?xs - 1) + j < N" using c by (simp add: canonical_iff [OF t])
  next
    assume "64 * (length ?xs - 1) + j < N"
    then have "logical_bit s (64 * (length ?xs - 1) + j)" using b by simp
    then show "bit (last ?xs) j" using last_word_bit [OF t that] by simp
  qed
  ultimately show ?thesis
    by (simp add: all_in_range [OF t] list_all_butlast bit_last_LAST_MASK [OF t])
qed

lemma all_iff_bits:
  assumes t: "in_range N (s :: 'w::len word BitSet)" and c: "canonical N s"
  shows "all N s = Inr (\<forall>i<N. logical_bit s i)"
proof (cases "\<forall>i<N. logical_bit s i")
  case True
  then show ?thesis using bits_imp_all [OF t c] by simp
next
  case False
  obtain a where av: "all N s = Inr a" using all_in_range [OF t] by blast
  have "\<not> a"
  proof
    assume a
    then have "all N s = Inr True" using av by simp
    then have "\<forall>i<N. logical_bit s i" using all_imp_bits [OF t] by blast
    then show False using False by simp
  qed
  then show ?thesis using av False by simp
qed

section \<open>Scanning for the first one\<close>

lemma first_one_in_range:
  assumes t: "in_range N (s :: 'w::len word BitSet)" and c: "canonical N s"
  shows "(none s \<longrightarrow> first_one N s = N) \<and>
         (\<not> none s \<longrightarrow>
            first_one N s < N \<and> logical_bit s (first_one N s) \<and>
            (\<forall>j<first_one N s. \<not> logical_bit s j)) \<and>
         first_one N s =
           (if \<forall>x\<in>set (m_storage s). countr_zero x = LENGTH('w) then N
            else sum_list (map countr_zero
                   (takeWhile (\<lambda>x. countr_zero x = LENGTH('w)) (m_storage s)))
                 + countr_zero (hd (dropWhile (\<lambda>x. countr_zero x = LENGTH('w)) (m_storage s))))"
proof -
  let ?xs = "m_storage s"
  let ?full = "\<lambda>x :: 'w word. countr_zero x = LENGTH('w)"
  have alg: "first_one N s =
           (if \<forall>x\<in>set ?xs. ?full x then N
            else sum_list (map countr_zero (takeWhile ?full ?xs))
                 + countr_zero (hd (dropWhile ?full ?xs)))"
    by (simp add: first_one_def first_func_impl_def first_func_loop_char)
  have none_iff: "none s \<longleftrightarrow> (\<forall>x\<in>set ?xs. ?full x)"
    by (simp add: none_def list_all_iff countr_zero_full)
  have res: "first_one N s =
           (if \<forall>x\<in>set ?xs. ?full x then N
            else 64 * length (takeWhile ?full ?xs) + countr_zero (?xs ! length (takeWhile ?full ?xs)))"
    unfolding first_one_def by (rule scan_result [OF t])
  show ?thesis
  proof (cases "none s")
    case True
    then have "first_one N s = N" using res none_iff by simp
    then show ?thesis using True alg by blast
  next
    case False
    then have nf: "\<not> (\<forall>x\<in>set ?xs. ?full x)" using none_iff by simp
    define k where "k = length (takeWhile ?full ?xs)"
    define y where "y = ?xs ! k"
    define r where "r = countr_zero y"
    have k: "k < length ?xs" and y: "\<not> ?full y" and before: "\<forall>i<k. ?full (?xs ! i)"
      using first_not_full [OF nf] by (simp_all add: k_def y_def)
    have fo: "first_one N s = 64 * k + r" using res nf by (simp add: k_def y_def r_def)
    have rW: "r < LENGTH('w)" using y countr_zero_le [of y] by (simp add: r_def)
    then have r64: "r < 64" using typed_W_le [OF t] by simp
    have bit_r: "bit y r" and low: "\<forall>j<r. \<not> bit y j"
      using countr_zero_char [of y r] rW by (simp_all add: r_def)
    have set_bit: "logical_bit s (64 * k + r)"
      using bit_r r64 by (simp add: logical_bit_at y_def)
    have below: "\<not> logical_bit s j" if "j < 64 * k + r" for j
    proof (cases "j div 64 < k")
      case True
      then have "?xs ! (j div 64) = 0" using before by (simp add: countr_zero_full)
      then show ?thesis by (simp add: logical_bit_def)
    next
      case False
      have "j < (k + 1) * 64" using that r64 by simp
      then have "j div 64 < k + 1" by (rule less_mult_imp_div_less)
      then have jk: "j div 64 = k" using False by simp
      have "j = 64 * (j div 64) + j mod 64" by simp
      then have "j mod 64 < r" using that jk by arith
      note jk and this
      then show ?thesis using low by (simp add: logical_bit_def y_def)
    qed
    have bound: "64 * k + r < N"
    proof (cases "k = length ?xs - 1")
      case True
      then have "y = last ?xs" using k by (simp add: y_def last_conv_nth typed_nonempty [OF t])
      then show ?thesis using c bit_r True by (simp add: canonical_iff [OF t])
    next
      case False
      then have "64 * k + r < 64 * (length ?xs - 1)" using k r64 by arith
      then show ?thesis using typed_lower [OF t] by arith
    qed
    have "first_one N s < N \<and> logical_bit s (first_one N s) \<and>
            (\<forall>j<first_one N s. \<not> logical_bit s j)"
      using fo set_bit below bound by simp
    then show ?thesis using False alg by blast
  qed
qed

text \<open>
  Claim C4. In a state in canonical form, \<open>first_one\<close> returns \<open>N\<close> when \<open>none\<close>
  holds; otherwise it returns an index below \<open>N\<close> whose bit is 1 and below which
  every bit is 0. The result is \<open>N\<close> when every word has a trailing-zero run of the
  full word width, and otherwise the sum of the run lengths of the words up to and
  including the first word whose run is shorter.
\<close>

theorem first_one_lowest_set_bit:
  assumes t: "BitSet_typed N (s :: 'w::len word BitSet)" and c: "canonical N s"
  shows "(none s \<longrightarrow> first_one N s = N) \<and>
         (\<not> none s \<longrightarrow>
            first_one N s < N \<and> logical_bit s (first_one N s) \<and>
            (\<forall>j<first_one N s. \<not> logical_bit s j)) \<and>
         first_one N s =
           (if \<forall>x\<in>set (m_storage s). countr_zero x = LENGTH('w) then N
            else sum_list (map countr_zero
                   (takeWhile (\<lambda>x. countr_zero x = LENGTH('w)) (m_storage s)))
                 + countr_zero (hd (dropWhile (\<lambda>x. countr_zero x = LENGTH('w)) (m_storage s))))"
proof (cases "N + 63 < 2 ^ 64")
  case True
  show ?thesis by (rule first_one_in_range [OF in_rangeI [OF t True] c])
next
  case False
  then have "m_storage s = []" using typed_wrapped [OF t] by simp
  then show ?thesis by (simp add: none_def first_one_def first_func_impl_def)
qed

theorem first_one_lowest_set_bit_witness:
  "BitSet_typed 129 \<lparr>m_storage = [0, 0, 1 :: 64 word]\<rparr> \<and>
   canonical 129 \<lparr>m_storage = [0, 0, 1 :: 64 word]\<rparr> \<and>
   \<not> none \<lparr>m_storage = [0, 0, 1 :: 64 word]\<rparr> \<and>
   first_one 129 \<lparr>m_storage = [0, 0, 1 :: 64 word]\<rparr> < 129 \<and>
   logical_bit \<lparr>m_storage = [0, 0, 1 :: 64 word]\<rparr>
     (first_one 129 \<lparr>m_storage = [0, 0, 1 :: 64 word]\<rparr>) \<and>
   BitSet_typed 70 \<lparr>m_storage = [0, 0 :: 64 word]\<rparr> \<and>
   canonical 70 \<lparr>m_storage = [0, 0 :: 64 word]\<rparr> \<and>
   none \<lparr>m_storage = [0, 0 :: 64 word]\<rparr> \<and>
   first_one 70 \<lparr>m_storage = [0, 0 :: 64 word]\<rparr> = 70"
proof -
  let ?e = "\<lparr>m_storage = [0, 0, 1 :: 64 word]\<rparr>"
  let ?d = "\<lparr>m_storage = [0, 0 :: 64 word]\<rparr>"
  have te: "BitSet_typed 129 ?e" and td: "BitSet_typed 70 ?d"
    by (simp_all add: BitSet_typed_def Inner_bits_def NUM_CHUNKS_def)
  have ce: "canonical 129 ?e" and cd: "canonical 70 ?d"
    by (simp_all add: canonical_def NUM_CHUNKS_def bit_1_iff)
  have ne: "\<not> none ?e" and nd: "none ?d"
    by (simp_all add: none_def)
  have "first_one 129 ?e < 129 \<and> logical_bit ?e (first_one 129 ?e)"
    using first_one_lowest_set_bit [OF te ce] ne by blast
  moreover have "first_one 70 ?d = 70"
    using first_one_lowest_set_bit [OF td cd] nd by blast
  ultimately show ?thesis using te td ce cd ne nd by blast
qed

section \<open>Scanning for the first zero\<close>

lemma first_zero_char:
  assumes t: "in_range N (s :: 'w::len word BitSet)" and c: "canonical N s"
  shows "first_zero N s \<le> N" and "\<forall>j<first_zero N s. logical_bit s j"
    and "first_zero N s < N \<longrightarrow> \<not> logical_bit s (first_zero N s)"
proof -
  let ?xs = "m_storage s"
  let ?full = "\<lambda>x :: 'w word. countr_one x = LENGTH('w)"
  have res: "first_zero N s =
           (if \<forall>x\<in>set ?xs. ?full x then N
            else 64 * length (takeWhile ?full ?xs) + countr_one (?xs ! length (takeWhile ?full ?xs)))"
    unfolding first_zero_def by (rule scan_result [OF t])
  have "first_zero N s \<le> N \<and> (\<forall>j<first_zero N s. logical_bit s j) \<and>
        (first_zero N s < N \<longrightarrow> \<not> logical_bit s (first_zero N s))"
  proof (cases "\<forall>x\<in>set ?xs. ?full x")
    case True
    then have r: "first_zero N s = N" using res by simp
    have "logical_bit s i" if i: "i < N" for i
    proof -
      note ix = typed_index [OF t i]
      have "?xs ! (i div 64) \<in> set ?xs" using ix(1) by simp
      then have "?xs ! (i div 64) = - 1" using True by (simp add: countr_one_full)
      then show ?thesis using ix(3) by (simp add: logical_bit_def)
    qed
    then show ?thesis using r by simp
  next
    case False
    define k where "k = length (takeWhile ?full ?xs)"
    define y where "y = ?xs ! k"
    define r where "r = countr_one y"
    have k: "k < length ?xs" and y: "\<not> ?full y" and before: "\<forall>i<k. ?full (?xs ! i)"
      using first_not_full [OF False] by (simp_all add: k_def y_def)
    have fz: "first_zero N s = 64 * k + r" using res False by (simp add: k_def y_def r_def)
    have rW: "r < LENGTH('w)" using y countr_one_le [of y] by (simp add: r_def)
    then have r64: "r < 64" using typed_W_le [OF t] by simp
    have clear: "\<not> bit y r" and low: "\<forall>j<r. bit y j"
      using countr_one_char [of y r] rW by (simp_all add: r_def)
    have clear_bit: "\<not> logical_bit s (64 * k + r)"
      using clear r64 by (simp add: logical_bit_at y_def)
    have below: "logical_bit s j" if "j < 64 * k + r" for j
    proof (cases "j div 64 < k")
      case True
      then have W: "LENGTH('w) = 64" using typed_W64 [OF t] k by simp
      have "?xs ! (j div 64) = - 1" using before True by (simp add: countr_one_full)
      then show ?thesis by (simp add: logical_bit_def W)
    next
      case False
      have "j < (k + 1) * 64" using that r64 by simp
      then have "j div 64 < k + 1" by (rule less_mult_imp_div_less)
      then have jk: "j div 64 = k" using False by simp
      have "j = 64 * (j div 64) + j mod 64" by simp
      then have "j mod 64 < r" using that jk by arith
      then show ?thesis using low jk by (simp add: logical_bit_def y_def)
    qed
    have bound: "64 * k + r \<le> N"
    proof (rule ccontr)
      assume "\<not> 64 * k + r \<le> N"
      then have N: "N < 64 * k + r" by simp
      then have set_N: "logical_bit s N" by (rule below)
      have lo: "64 * (length ?xs - 1) \<le> N" using typed_lower [OF t] by simp
      have hi: "N < 64 * (length ?xs - 1) + 64" using N k r64 by arith
      note d = div64_unique [OF lo hi]
      have "bit (last ?xs) (N - 64 * (length ?xs - 1))"
        using set_N d by (simp add: logical_bit_def last_conv_nth typed_nonempty [OF t])
      then have "64 * (length ?xs - 1) + (N - 64 * (length ?xs - 1)) < N"
        using c by (simp add: canonical_iff [OF t])
      then show False using lo by simp
    qed
    show ?thesis using fz clear_bit below bound by simp
  qed
  then show "first_zero N s \<le> N" and "\<forall>j<first_zero N s. logical_bit s j"
    and "first_zero N s < N \<longrightarrow> \<not> logical_bit s (first_zero N s)"
    by simp_all
qed

lemma none_bit: "in_range N s \<Longrightarrow> none s \<Longrightarrow> \<not> logical_bit s 0"
  using typed_nonempty [of N s]
  by (cases "m_storage s") (simp_all add: none_def logical_bit_def)

text \<open>
  Claim C5, amended to the widths \<open>N \<le> 2 ^ 64 - 64\<close>. In a state in canonical
  form, \<open>first_zero\<close> returns \<open>N\<close> when every bit with an index below \<open>N\<close> is 1;
  otherwise it returns an index below \<open>N\<close> whose bit is 0 and below which every bit
  is 1. In particular it returns \<open>N\<close> when \<open>all\<close> returns true and 0 when \<open>none\<close>
  holds.
\<close>

theorem first_zero_lowest_clear_bit:
  assumes t: "BitSet_typed N (s :: 'w::len word BitSet)" and n: "N + 63 < 2 ^ 64"
    and c: "canonical N s"
  shows "((\<forall>i<N. logical_bit s i) \<longrightarrow> first_zero N s = N) \<and>
         (\<not> (\<forall>i<N. logical_bit s i) \<longrightarrow>
            first_zero N s < N \<and> \<not> logical_bit s (first_zero N s) \<and>
            (\<forall>j<first_zero N s. logical_bit s j)) \<and>
         (all N s = Inr True \<longrightarrow> first_zero N s = N) \<and>
         (none s \<longrightarrow> first_zero N s = 0)"
proof -
  note r = in_rangeI [OF t n]
  note fz = first_zero_char [OF r c]
  have ones: "first_zero N s = N" if "\<forall>i<N. logical_bit s i"
    using fz(1) fz(3) that by (cases "first_zero N s < N") auto
  have some: "first_zero N s < N" if "\<not> (\<forall>i<N. logical_bit s i)"
    using fz(1) fz(2) that by (cases "first_zero N s < N") auto
  have allc: "first_zero N s = N" if "all N s = Inr True"
    using ones all_imp_bits [OF r that] by simp
  have zero: "first_zero N s = 0" if "none s"
  proof (rule ccontr)
    assume "first_zero N s \<noteq> 0"
    then have "logical_bit s 0" using fz(2) by simp
    then show False using none_bit [OF r that] by simp
  qed
  show ?thesis using ones some allc zero fz by blast
qed

theorem first_zero_lowest_clear_bit_witness:
  "BitSet_typed 65 \<lparr>m_storage = [- 1, 1 :: 64 word]\<rparr> \<and>
   canonical 65 \<lparr>m_storage = [- 1, 1 :: 64 word]\<rparr> \<and>
   all 65 \<lparr>m_storage = [- 1, 1 :: 64 word]\<rparr> = Inr True \<and>
   first_zero 65 \<lparr>m_storage = [- 1, 1 :: 64 word]\<rparr> = 65 \<and>
   BitSet_typed 8 \<lparr>m_storage = [53 :: 8 word]\<rparr> \<and>
   canonical 8 \<lparr>m_storage = [53 :: 8 word]\<rparr> \<and>
   \<not> (\<forall>i<8. logical_bit \<lparr>m_storage = [53 :: 8 word]\<rparr> i) \<and>
   first_zero 8 \<lparr>m_storage = [53 :: 8 word]\<rparr> < 8 \<and>
   BitSet_typed 70 \<lparr>m_storage = [0, 0 :: 64 word]\<rparr> \<and>
   canonical 70 \<lparr>m_storage = [0, 0 :: 64 word]\<rparr> \<and>
   none \<lparr>m_storage = [0, 0 :: 64 word]\<rparr> \<and>
   first_zero 70 \<lparr>m_storage = [0, 0 :: 64 word]\<rparr> = 0"
proof -
  let ?c = "\<lparr>m_storage = [- 1, 1 :: 64 word]\<rparr>"
  let ?a = "\<lparr>m_storage = [53 :: 8 word]\<rparr>"
  let ?d = "\<lparr>m_storage = [0, 0 :: 64 word]\<rparr>"
  have tc: "BitSet_typed 65 ?c" and ta: "BitSet_typed 8 ?a" and td: "BitSet_typed 70 ?d"
    by (simp_all add: BitSet_typed_def Inner_bits_def NUM_CHUNKS_def)
  have nc: "(65::nat) + 63 < 2 ^ 64" and na: "(8::nat) + 63 < 2 ^ 64"
    and nd: "(70::nat) + 63 < 2 ^ 64"
    by simp_all
  have cc: "canonical 65 ?c" and ca: "canonical 8 ?a" and cd: "canonical 70 ?d"
    by (simp_all add: canonical_def NUM_CHUNKS_def bit_1_iff)
  have ac: "all 65 ?c = Inr True" by (simp add: all_def NUM_CHUNKS_def LAST_MASK_def)
  have "\<not> logical_bit ?a 1" by (simp add: logical_bit_def)
  then have za: "\<not> (\<forall>i<8. logical_bit ?a i)" by (auto intro: exI [of _ 1])
  have zd: "none ?d" by (simp add: none_def)
  have "first_zero 65 ?c = 65"
    using first_zero_lowest_clear_bit [OF tc nc cc] ac by blast
  moreover have "first_zero 8 ?a < 8"
    using first_zero_lowest_clear_bit [OF ta na ca] za by blast
  moreover have "first_zero 70 ?d = 0"
    using first_zero_lowest_clear_bit [OF td nd cd] zd by blast
  ultimately show ?thesis using tc ta td cc ca cd ac za zd by blast
qed

text \<open>
  Claim C5 as stated fails for the widths above \<open>2 ^ 64 - 64\<close>. For
  \<open>N = 2 ^ 64 - 1\<close> the storage array has no element; the default-constructed
  container is all-zero (\<open>none\<close> holds) and in canonical form, and \<open>first_zero\<close>
  returns \<open>N\<close>, not 0.
\<close>

theorem first_zero_wrapped_width_counterexample:
  "BitSet_typed 18446744073709551615 (BitSet_default 18446744073709551615 :: 64 word BitSet) \<and>
   canonical 18446744073709551615 (BitSet_default 18446744073709551615 :: 64 word BitSet) \<and>
   none (BitSet_default 18446744073709551615 :: 64 word BitSet) \<and>
   first_zero 18446744073709551615 (BitSet_default 18446744073709551615 :: 64 word BitSet)
     = 18446744073709551615 \<and>
   first_zero 18446744073709551615 (BitSet_default 18446744073709551615 :: 64 word BitSet)
     \<noteq> 0"
proof -
  have nc: "NUM_CHUNKS 18446744073709551615 = 0" by (simp add: NUM_CHUNKS_def)
  show ?thesis
    by (simp add: BitSet_typed_def Inner_bits_def BitSet_default_def nc canonical_def
        none_def first_zero_def first_func_impl_def)
qed

section \<open>The predicate all\<close>

text \<open>
  Claim C3, amended to the widths \<open>N \<le> 2 ^ 64 - 64\<close>. In a state in canonical
  form, \<open>all\<close> returns true exactly when every bit with an index below \<open>N\<close> is 1;
  and it returns true exactly when every storage word before the last is the maximum
  value of its type and the last word equals \<open>LAST_MASK\<close>.
\<close>

theorem all_iff_every_bit_set:
  assumes t: "BitSet_typed N (s :: 'w::len word BitSet)" and n: "N + 63 < 2 ^ 64"
    and c: "canonical N s"
  shows "all N s = Inr (\<forall>i<N. logical_bit s i) \<and>
         all N s = Inr ((\<forall>k<NUM_CHUNKS N - 1. m_storage s ! k = - 1) \<and>
                        (ucast (m_storage s ! (NUM_CHUNKS N - 1)) :: 64 word) = LAST_MASK N)"
proof -
  note r = in_rangeI [OF t n]
  have len: "length (m_storage s) = NUM_CHUNKS N" using t by (simp add: BitSet_typed_def)
  have "last (m_storage s) = m_storage s ! (NUM_CHUNKS N - 1)"
    using typed_nonempty [OF r] len by (simp add: last_conv_nth)
  then have "all N s = Inr ((\<forall>k<NUM_CHUNKS N - 1. m_storage s ! k = - 1) \<and>
            (ucast (m_storage s ! (NUM_CHUNKS N - 1)) :: 64 word) = LAST_MASK N)"
    by (simp add: all_in_range [OF r] list_all_butlast len)
  then show ?thesis using all_iff_bits [OF r c] by simp
qed

theorem all_iff_every_bit_set_witness:
  "BitSet_typed 65 \<lparr>m_storage = [- 1, 1 :: 64 word]\<rparr> \<and>
   canonical 65 \<lparr>m_storage = [- 1, 1 :: 64 word]\<rparr> \<and>
   all 65 \<lparr>m_storage = [- 1, 1 :: 64 word]\<rparr> = Inr True \<and>
   logical_bit \<lparr>m_storage = [- 1, 1 :: 64 word]\<rparr> 64 \<and>
   BitSet_typed 8 \<lparr>m_storage = [53 :: 8 word]\<rparr> \<and>
   canonical 8 \<lparr>m_storage = [53 :: 8 word]\<rparr> \<and>
   all 8 \<lparr>m_storage = [53 :: 8 word]\<rparr> = Inr False \<and>
   \<not> (\<forall>i<8. logical_bit \<lparr>m_storage = [53 :: 8 word]\<rparr> i)"
proof -
  let ?c = "\<lparr>m_storage = [- 1, 1 :: 64 word]\<rparr>"
  let ?a = "\<lparr>m_storage = [53 :: 8 word]\<rparr>"
  have tc: "BitSet_typed 65 ?c" and ta: "BitSet_typed 8 ?a"
    by (simp_all add: BitSet_typed_def Inner_bits_def NUM_CHUNKS_def)
  have nc: "(65::nat) + 63 < 2 ^ 64" and na: "(8::nat) + 63 < 2 ^ 64"
    by simp_all
  have cc: "canonical 65 ?c" and ca: "canonical 8 ?a"
    by (simp_all add: canonical_def NUM_CHUNKS_def bit_1_iff)
  have ac: "all 65 ?c = Inr True" and aa: "all 8 ?a = Inr False"
    by (simp_all add: all_def NUM_CHUNKS_def LAST_MASK_def)
  have "\<forall>i<65. logical_bit ?c i"
    using all_iff_every_bit_set [OF tc nc cc] ac by simp
  then have "logical_bit ?c 64" by simp
  moreover have "\<not> (\<forall>i<8. logical_bit ?a i)"
    using all_iff_every_bit_set [OF ta na ca] aa by simp
  ultimately show ?thesis using tc ta cc ca ac aa by blast
qed

text \<open>
  Claim C3 as stated fails for the widths above \<open>2 ^ 64 - 64\<close>. For
  \<open>N = 2 ^ 64 - 1\<close> the storage array has no element: the only state is in
  canonical form, and \<open>all\<close> returns no value.
\<close>

theorem all_wrapped_width_counterexample:
  "BitSet_typed 18446744073709551615 \<lparr>m_storage = ([] :: 64 word list)\<rparr> \<and>
   canonical 18446744073709551615 \<lparr>m_storage = ([] :: 64 word list)\<rparr> \<and>
   all 18446744073709551615 \<lparr>m_storage = ([] :: 64 word list)\<rparr> = Inl UndefinedBehaviour"
proof -
  have nc: "NUM_CHUNKS 18446744073709551615 = 0" by (simp add: NUM_CHUNKS_def)
  show ?thesis
    by (simp add: BitSet_typed_def Inner_bits_def nc canonical_def all_def)
qed

section \<open>The modifiers, word by word\<close>

lemma fold_update_nth:
  "n \<le> length xs \<Longrightarrow>
     length (fold (\<lambda>i st. st[i := g (st ! i)]) [0..<n] xs) = length xs \<and>
     (\<forall>q<length xs. fold (\<lambda>i st. st[i := g (st ! i)]) [0..<n] xs ! q
                        = (if q < n then g (xs ! q) else xs ! q))"
proof (induction n)
  case 0
  show ?case by simp
next
  case (Suc n)
  then have IH: "length (fold (\<lambda>i st. st[i := g (st ! i)]) [0..<n] xs) = length xs"
      "\<forall>q<length xs. fold (\<lambda>i st. st[i := g (st ! i)]) [0..<n] xs ! q
                        = (if q < n then g (xs ! q) else xs ! q)"
    by simp_all
  show ?case using IH Suc.prems by (auto simp: nth_list_update less_Suc_eq)
qed

lemma bit_complement_masked:
  assumes "LENGTH('w::len) \<le> 64"
  shows "bit (ucast (complement_as_size_t (x :: 'w word) AND LAST_MASK N) :: 'w word) j \<longleftrightarrow>
           j < LENGTH('w) \<and> \<not> bit x j \<and> bit (LAST_MASK N) j"
  using assms by (auto simp: complement_as_size_t_def bit_simps)

lemma ucast_or_push:
  assumes "LENGTH('w::len) \<le> 64"
  shows "(ucast ((ucast (x :: 'w word) :: 64 word) OR push_bit k 1) :: 'w word) = x OR push_bit k 1"
  using assms by (intro bit_word_eqI) (auto simp: bit_simps)

lemma ucast_push:
  assumes "LENGTH('w::len) \<le> 64"
  shows "(ucast (push_bit k (1 :: 64 word)) :: 'w word) = push_bit k 1"
  using assms by (intro bit_word_eqI) (auto simp: bit_simps)

lemma bit_ucast_and:
  assumes "LENGTH('w::len) \<le> 64"
  shows "bit (ucast ((ucast (x :: 'w word) :: 64 word) AND m) :: 'w word) j \<longleftrightarrow> bit x j \<and> bit m j"
  using assms by (auto simp: bit_simps dest: bit_imp_le_length)

lemma typed_len: "in_range N s \<Longrightarrow> length (m_storage s) = NUM_CHUNKS N"
  by (simp add: in_range_iff)

lemma typed_last: "in_range N s \<Longrightarrow> last (m_storage s) = m_storage s ! (NUM_CHUNKS N - 1)"
  using typed_nonempty [of N s] by (simp add: last_conv_nth in_range_iff)

lemma typed_storage_update:
  "in_range N s \<Longrightarrow> length xs = length (m_storage s) \<Longrightarrow> in_range N (s\<lparr>m_storage := xs\<rparr>)"
  by (simp add: in_range_iff)

text \<open>
  For the widths in range \<open>set()\<close> and \<open>flip()\<close> return a state; the storage after
  each bulk modifier, word by word.
\<close>

lemma set_all_Inr: "in_range N s \<Longrightarrow> set_all N s = Inr (projr (set_all N s))"
  using in_range_chunks [of N s] by (simp add: set_all_def Let_def)

lemma flip_Inr: "in_range N s \<Longrightarrow> flip N s = Inr (projr (flip N s))"
  using in_range_chunks [of N s] by (simp add: flip_def Let_def)

lemma set_all_storage:
  assumes t: "in_range N (s :: 'w::len word BitSet)"
  shows "length (m_storage (projr (set_all N s))) = NUM_CHUNKS N"
    and "\<forall>q<NUM_CHUNKS N. m_storage (projr (set_all N s)) ! q =
           (if q = NUM_CHUNKS N - 1 then ucast (LAST_MASK N) else - 1)"
proof -
  have le: "NUM_CHUNKS N - 1 \<le> length (m_storage s)" using typed_len [OF t] by simp
  note f = fold_update_nth [OF le, where g = "\<lambda>_. - 1"]
  show "length (m_storage (projr (set_all N s))) = NUM_CHUNKS N"
    using f typed_len [OF t] in_range_chunks [OF t] by (simp add: set_all_def Let_def)
  show "\<forall>q<NUM_CHUNKS N. m_storage (projr (set_all N s)) ! q =
           (if q = NUM_CHUNKS N - 1 then ucast (LAST_MASK N) else - 1)"
    using f typed_len [OF t] in_range_chunks [OF t]
    by (auto simp: set_all_def Let_def nth_list_update)
qed

lemma flip_storage:
  assumes t: "in_range N (s :: 'w::len word BitSet)"
  shows "length (m_storage (projr (flip N s))) = NUM_CHUNKS N"
    and "\<forall>q<NUM_CHUNKS N. m_storage (projr (flip N s)) ! q =
           (if q = NUM_CHUNKS N - 1
            then ucast (complement_as_size_t (m_storage s ! q) AND LAST_MASK N)
            else NOT (m_storage s ! q))"
proof -
  have le: "NUM_CHUNKS N - 1 \<le> length (m_storage s)" using typed_len [OF t] by simp
  note f = fold_update_nth [OF le, where g = "\<lambda>x. NOT x"]
  show "length (m_storage (projr (flip N s))) = NUM_CHUNKS N"
    using f typed_len [OF t] in_range_chunks [OF t] by (simp add: flip_def Let_def)
  show "\<forall>q<NUM_CHUNKS N. m_storage (projr (flip N s)) ! q =
           (if q = NUM_CHUNKS N - 1
            then ucast (complement_as_size_t (m_storage s ! q) AND LAST_MASK N)
            else NOT (m_storage s ! q))"
    using f typed_len [OF t] in_range_chunks [OF t]
    by (auto simp: flip_def Let_def nth_list_update)
qed

lemma typed_set_all: "in_range N s \<Longrightarrow> in_range N (projr (set_all N s))"
  using set_all_storage(1) [of N s] by (simp add: in_range_iff)

lemma typed_flip: "in_range N s \<Longrightarrow> in_range N (projr (flip N s))"
  using flip_storage(1) [of N s] by (simp add: in_range_iff)

lemma typed_reset: "in_range N s \<Longrightarrow> in_range N (reset s)"
  by (simp add: in_range_iff reset_def)

text \<open>The canonical form in terms of \<open>LAST_MASK\<close>.\<close>

lemma canonical_mask:
  assumes t: "in_range N s"
  shows "canonical N s \<longleftrightarrow>
           (\<forall>j. bit (m_storage s ! (NUM_CHUNKS N - 1)) j \<longrightarrow> bit (LAST_MASK N) j)"
proof -
  have N: "0 < N" and B: "N + 63 < 2 ^ 64" using t by (simp_all add: in_range_iff)
  show ?thesis
    by (simp add: canonical_iff [OF t] typed_last [OF t] typed_len [OF t]
        bit_LAST_MASK_pos [OF N B])
qed

lemma canonical_set_all:
  assumes t: "in_range N (s :: 'w::len word BitSet)"
  shows "canonical N (projr (set_all N s))"
proof -
  have N: "0 < NUM_CHUNKS N" using t NUM_CHUNKS_pos by (simp add: in_range_iff)
  show ?thesis
    using set_all_storage(2) [OF t] N
    by (simp add: canonical_mask [OF typed_set_all [OF t]] bit_simps)
qed

lemma canonical_flip:
  assumes t: "in_range N (s :: 'w::len word BitSet)"
  shows "canonical N (projr (flip N s))"
proof -
  have N: "0 < NUM_CHUNKS N" using t NUM_CHUNKS_pos by (simp add: in_range_iff)
  show ?thesis
    using flip_storage(2) [OF t] N
    by (simp add: canonical_mask [OF typed_flip [OF t]] bit_complement_masked [OF typed_W_le [OF t]])
qed

lemma canonical_reset:
  assumes t: "in_range N (s :: 'w::len word BitSet)"
  shows "canonical N (reset s)"
proof -
  have "NUM_CHUNKS N - 1 < length (m_storage s)"
    using t NUM_CHUNKS_pos [of N] by (simp add: in_range_iff)
  then show ?thesis
    unfolding canonical_mask [OF typed_reset [OF t]] by (simp add: reset_def)
qed

lemma flip_flip:
  assumes t: "in_range N (s :: 'w::len word BitSet)" and c: "canonical N s"
  shows "flip N (projr (flip N s)) = Inr s"
proof -
  note W = typed_W_le [OF t]
  note t' = typed_flip [OF t]
  have "m_storage (projr (flip N (projr (flip N s)))) = m_storage s"
  proof (rule nth_equalityI)
    show "length (m_storage (projr (flip N (projr (flip N s))))) = length (m_storage s)"
      using flip_storage(1) [OF t'] typed_len [OF t] by simp
  next
    fix q assume "q < length (m_storage (projr (flip N (projr (flip N s)))))"
    then have q: "q < NUM_CHUNKS N" using flip_storage(1) [OF t'] by simp
    show "m_storage (projr (flip N (projr (flip N s)))) ! q = m_storage s ! q"
    proof (cases "q = NUM_CHUNKS N - 1")
      case True
      have "bit (m_storage (projr (flip N (projr (flip N s)))) ! q) j \<longleftrightarrow> bit (m_storage s ! q) j" for j
        using flip_storage(2) [OF t'] flip_storage(2) [OF t] q True c
        by (auto simp: bit_complement_masked [OF W] canonical_mask [OF t] dest: bit_imp_le_length)
      then show ?thesis by (simp add: bit_eq_iff)
    next
      case False
      then show ?thesis using flip_storage(2) [OF t'] flip_storage(2) [OF t] q by simp
    qed
  qed
  moreover have "BitSet.more (projr (flip N (projr (flip N s)))) = BitSet.more s"
    using in_range_chunks [OF t] by (simp add: flip_def Let_def)
  ultimately have "projr (flip N (projr (flip N s))) = s" by simp
  then show ?thesis using flip_Inr [OF t'] by simp
qed

lemma canonical_and_mask:
  assumes t: "in_range N (s :: 'w::len word BitSet)"
  shows "canonical N s \<longleftrightarrow>
           (ucast (m_storage s ! (NUM_CHUNKS N - 1)) :: 64 word) AND LAST_MASK N
             = ucast (m_storage s ! (NUM_CHUNKS N - 1))"
proof -
  let ?w = "m_storage s ! (NUM_CHUNKS N - 1)"
  have "j < 64" if "bit ?w j" for j
    using bit_imp_le_length [OF that] typed_W_le [OF t] by simp
  then have "(\<forall>j. bit ?w j \<longrightarrow> bit (LAST_MASK N) j) \<longleftrightarrow>
        (\<forall>j<64. bit ?w j \<and> bit (LAST_MASK N) j \<longleftrightarrow> bit ?w j)"
    by blast
  then show ?thesis
    unfolding canonical_mask [OF t] bit_eq_iff [where ?'a = "64 word"]
    using typed_W_le [OF t] by (simp add: bit_simps)
qed

lemma small_pos:
  "\<not> 64 < (N::nat) \<Longrightarrow> pos < N \<Longrightarrow> pos div 64 = 0 \<and> pos mod 64 = pos \<and> pos < 64"
  by simp

lemma set_pos_True:
  assumes t: "in_range N (s :: 'w::len word BitSet)" and p: "pos < N"
  shows "set_pos b N s pos True =
           Inr (s\<lparr>m_storage := (m_storage s)[pos div 64 :=
                  m_storage s ! (pos div 64) OR push_bit (pos mod 64) 1]\<rparr>)"
proof (cases "64 < N")
  case True
  have "pos div 64 < NUM_CHUNKS N" using typed_index(1) [OF t p] typed_len [OF t] by simp
  then show ?thesis
    using True p
    by (simp del: push_bit_of_1
          add: set_pos_def BITSET_ASSERT_def Let_def ucast_or_push [OF typed_W_le [OF t]])
next
  case False
  then show ?thesis
    using p small_pos [OF False p]
    by (simp del: push_bit_of_1
          add: set_pos_def BITSET_ASSERT_def ucast_push [OF typed_W_le [OF t]])
qed

lemma reset_pos_result:
  assumes t: "in_range N (s :: 'w::len word BitSet)" and p: "pos < N"
  shows "\<exists>w. reset_pos b N s pos = Inr (s\<lparr>m_storage := (m_storage s)[pos div 64 := w]\<rparr>) \<and>
             (\<forall>j. bit w j \<longrightarrow> bit (m_storage s ! (pos div 64)) j)"
proof -
  note W = typed_W_le [OF t]
  let ?old = "ucast (m_storage s ! (pos div 64)) :: 64 word"
  let ?clear = "NOT (push_bit (pos mod 64) (1 :: 64 word))"
  define w :: "'w word" where
    "w = (if 64 < N \<and> pos div 64 \<noteq> NUM_CHUNKS N - 1 then ucast (?old AND ?clear)
          else ucast (?old AND (?clear AND LAST_MASK N)))"
  have sub: "\<forall>j. bit w j \<longrightarrow> bit (m_storage s ! (pos div 64)) j"
    by (simp add: w_def bit_ucast_and [OF W])
  have "reset_pos b N s pos = Inr (s\<lparr>m_storage := (m_storage s)[pos div 64 := w]\<rparr>)"
  proof (cases "64 < N")
    case True
    have "pos div 64 < NUM_CHUNKS N" using typed_index(1) [OF t p] typed_len [OF t] by simp
    then show ?thesis
      using True p by (simp add: reset_pos_def BITSET_ASSERT_def Let_def w_def)
  next
    case False
    then show ?thesis
      using p small_pos [OF False p] by (simp add: reset_pos_def BITSET_ASSERT_def w_def)
  qed
  then show ?thesis using sub by blast
qed

lemma canonical_update:
  assumes t: "in_range N (s :: 'w::len word BitSet)" and c: "canonical N s"
    and k: "k < NUM_CHUNKS N"
    and w: "\<And>j. k = NUM_CHUNKS N - 1 \<Longrightarrow> bit w j \<Longrightarrow> bit (m_storage s ! k) j \<or> bit (LAST_MASK N) j"
  shows "canonical N (s\<lparr>m_storage := (m_storage s)[k := w]\<rparr>)"
proof -
  have t': "in_range N (s\<lparr>m_storage := (m_storage s)[k := w]\<rparr>)"
    using t by (simp add: in_range_iff)
  have L: "k < length (m_storage s)"
    using k typed_len [OF t] by simp
  show ?thesis
    unfolding canonical_mask [OF t']
    using c w L by (auto simp: canonical_mask [OF t] nth_list_update split: if_splits)
qed

lemma canonical_set_pos:
  assumes t: "in_range N (s :: 'w::len word BitSet)" and c: "canonical N s" and p: "pos < N"
  shows "\<exists>s'. set_pos b N s pos v = Inr s' \<and> canonical N s'"
proof (cases v)
  case True
  have N: "0 < N" using p by simp
  have B: "N + 63 < 2 ^ 64" using t by (simp add: in_range_iff)
  have k: "pos div 64 < NUM_CHUNKS N" using typed_index(1) [OF t p] typed_len [OF t] by simp
  have "canonical N (s\<lparr>m_storage := (m_storage s)[pos div 64 :=
                  m_storage s ! (pos div 64) OR push_bit (pos mod 64) 1]\<rparr>)"
  proof (rule canonical_update [OF t c k])
    fix j
    assume last: "pos div 64 = NUM_CHUNKS N - 1"
      and b: "bit (m_storage s ! (pos div 64) OR push_bit (pos mod 64) 1) j"
    have "64 * (pos div 64) + pos mod 64 = pos" by simp
    then have "bit (LAST_MASK N) (pos mod 64)"
      using p unfolding bit_LAST_MASK_pos [OF N B] last by simp
    then show "bit (m_storage s ! (pos div 64)) j \<or> bit (LAST_MASK N) j"
      using b by (auto simp: bit_simps)
  qed
  then show ?thesis using True set_pos_True [OF t p] by simp
next
  case False
  obtain w where r: "reset_pos b N s pos = Inr (s\<lparr>m_storage := (m_storage s)[pos div 64 := w]\<rparr>)"
    and w: "\<forall>j. bit w j \<longrightarrow> bit (m_storage s ! (pos div 64)) j"
    using reset_pos_result [OF t p] by blast
  have k: "pos div 64 < NUM_CHUNKS N" using typed_index(1) [OF t p] typed_len [OF t] by simp
  have "canonical N (s\<lparr>m_storage := (m_storage s)[pos div 64 := w]\<rparr>)"
    using w by (intro canonical_update [OF t c k]) simp
  then show ?thesis using False r p by (simp add: set_pos_def BITSET_ASSERT_def)
qed

lemma canonical_reset_pos:
  assumes t: "in_range N (s :: 'w::len word BitSet)" and c: "canonical N s" and p: "pos < N"
  shows "\<exists>s'. reset_pos b N s pos = Inr s' \<and> canonical N s'"
  using canonical_set_pos [OF t c p, of b False] p by (simp add: set_pos_def BITSET_ASSERT_def)

section \<open>The canonical form under the modifiers\<close>

lemma canonical_reset_typed:
  assumes t: "BitSet_typed N (s :: 'w::len word BitSet)"
  shows "canonical N (reset s)"
proof (cases "N + 63 < 2 ^ 64")
  case True
  show ?thesis by (rule canonical_reset [OF in_rangeI [OF t True]])
next
  case False
  then have "m_storage s = []" using typed_wrapped [OF t] by simp
  then show ?thesis by (simp add: canonical_def reset_def)
qed

text \<open>
  Claim C6, amended: \<open>reset()\<close> for every width, the other modifiers for the widths
  \<open>N \<le> 2 ^ 64 - 64\<close>. From a state in canonical form, each modifier leads to a state
  in canonical form: \<open>reset()\<close>, \<open>set()\<close> and \<open>flip()\<close>, and, for every \<open>pos < N\<close>,
  \<open>set(pos, value)\<close> and \<open>reset(pos)\<close>; all of them return a state, in either build.
\<close>

theorem modifiers_preserve_canonical:
  assumes t: "BitSet_typed N (s :: 'w::len word BitSet)" and c: "canonical N s"
  shows "canonical N (reset s) \<and>
         (N + 63 < 2 ^ 64 \<longrightarrow>
            (\<exists>s'. set_all N s = Inr s' \<and> canonical N s') \<and>
            (\<exists>s'. flip N s = Inr s' \<and> canonical N s') \<and>
            (\<forall>pos<N. \<forall>b v. \<exists>s'. set_pos b N s pos v = Inr s' \<and> canonical N s') \<and>
            (\<forall>pos<N. \<forall>b. \<exists>s'. reset_pos b N s pos = Inr s' \<and> canonical N s'))"
proof -
  have "(\<exists>s'. set_all N s = Inr s' \<and> canonical N s') \<and>
        (\<exists>s'. flip N s = Inr s' \<and> canonical N s') \<and>
        (\<forall>pos<N. \<forall>b v. \<exists>s'. set_pos b N s pos v = Inr s' \<and> canonical N s') \<and>
        (\<forall>pos<N. \<forall>b. \<exists>s'. reset_pos b N s pos = Inr s' \<and> canonical N s')"
    if n: "N + 63 < 2 ^ 64"
  proof -
    note r = in_rangeI [OF t n]
    show ?thesis
      using set_all_Inr [OF r] canonical_set_all [OF r] flip_Inr [OF r] canonical_flip [OF r]
        canonical_set_pos [OF r c] canonical_reset_pos [OF r c]
      by blast
  qed
  then show ?thesis using canonical_reset_typed [OF t] by blast
qed

theorem modifiers_preserve_canonical_witness:
  "BitSet_typed 70 \<lparr>m_storage = [5, 3 :: 64 word]\<rparr> \<and>
   canonical 70 \<lparr>m_storage = [5, 3 :: 64 word]\<rparr> \<and>
   canonical 70 (reset \<lparr>m_storage = [5, 3 :: 64 word]\<rparr>) \<and>
   (\<exists>s'. set_all 70 \<lparr>m_storage = [5, 3 :: 64 word]\<rparr> = Inr s' \<and> canonical 70 s') \<and>
   (\<exists>s'. flip 70 \<lparr>m_storage = [5, 3 :: 64 word]\<rparr> = Inr s' \<and> canonical 70 s') \<and>
   (\<exists>s'. set_pos Debug 70 \<lparr>m_storage = [5, 3 :: 64 word]\<rparr> 69 True = Inr s' \<and> canonical 70 s') \<and>
   (\<exists>s'. reset_pos Debug 70 \<lparr>m_storage = [5, 3 :: 64 word]\<rparr> 64 = Inr s' \<and> canonical 70 s')"
proof -
  let ?s = "\<lparr>m_storage = [5, 3 :: 64 word]\<rparr>"
  have t: "BitSet_typed 70 ?s"
    by (simp add: BitSet_typed_def Inner_bits_def NUM_CHUNKS_def)
  have n: "(70::nat) + 63 < 2 ^ 64" by simp
  have c: "canonical 70 ?s"
    by (simp add: canonical_and_mask [OF in_rangeI [OF t n]] NUM_CHUNKS_def LAST_MASK_def)
  have p: "(69::nat) < 70" and q: "(64::nat) < 70" by simp_all
  note m = modifiers_preserve_canonical [OF t c]
  have "\<exists>s'. set_pos Debug 70 ?s 69 True = Inr s' \<and> canonical 70 s'"
    using m n p by blast
  moreover have "\<exists>s'. reset_pos Debug 70 ?s 64 = Inr s' \<and> canonical 70 s'"
    using m n q by blast
  ultimately show ?thesis using m n t c by blast
qed

text \<open>
  Claim C6 as stated fails for the widths above \<open>2 ^ 64 - 64\<close>. For
  \<open>N = 2 ^ 64 - 1\<close> the storage array has no element: from the only state, which is
  in canonical form, \<open>set()\<close>, \<open>flip()\<close>, \<open>set(0)\<close> and \<open>reset(0)\<close> write outside the
  array and return no state.
\<close>

theorem modifiers_wrapped_width_counterexample:
  "BitSet_typed 18446744073709551615 \<lparr>m_storage = ([] :: 64 word list)\<rparr> \<and>
   canonical 18446744073709551615 \<lparr>m_storage = ([] :: 64 word list)\<rparr> \<and>
   set_all 18446744073709551615 \<lparr>m_storage = ([] :: 64 word list)\<rparr> = Inl UndefinedBehaviour \<and>
   flip 18446744073709551615 \<lparr>m_storage = ([] :: 64 word list)\<rparr> = Inl UndefinedBehaviour \<and>
   set_pos Debug 18446744073709551615 \<lparr>m_storage = ([] :: 64 word list)\<rparr> 0 True = Inl UndefinedBehaviour \<and>
   reset_pos Debug 18446744073709551615 \<lparr>m_storage = ([] :: 64 word list)\<rparr> 0 = Inl UndefinedBehaviour"
proof -
  have nc: "NUM_CHUNKS 18446744073709551615 = 0" by (simp add: NUM_CHUNKS_def)
  show ?thesis
    by (simp add: BitSet_typed_def Inner_bits_def nc canonical_def set_all_def flip_def
        set_pos_def reset_pos_def BITSET_ASSERT_def)
qed

text \<open>
  Claim C10, amended: \<open>reset()\<close> for every width, \<open>set()\<close> and \<open>flip()\<close> for the
  widths \<open>N \<le> 2 ^ 64 - 64\<close>. From every well-typed state, in canonical form or not,
  each of the three returns a state in canonical form.
\<close>

theorem bulk_modifiers_establish_canonical:
  assumes t: "BitSet_typed N (s :: 'w::len word BitSet)"
  shows "canonical N (reset s) \<and>
         (N + 63 < 2 ^ 64 \<longrightarrow>
            (\<exists>s'. set_all N s = Inr s' \<and> canonical N s') \<and>
            (\<exists>s'. flip N s = Inr s' \<and> canonical N s'))"
proof -
  have "(\<exists>s'. set_all N s = Inr s' \<and> canonical N s') \<and>
        (\<exists>s'. flip N s = Inr s' \<and> canonical N s')"
    if n: "N + 63 < 2 ^ 64"
  proof -
    note r = in_rangeI [OF t n]
    show ?thesis
      using set_all_Inr [OF r] canonical_set_all [OF r] flip_Inr [OF r] canonical_flip [OF r]
      by blast
  qed
  then show ?thesis using canonical_reset_typed [OF t] by blast
qed

theorem bulk_modifiers_establish_canonical_witness:
  "BitSet_typed 5 \<lparr>m_storage = [255 :: 8 word]\<rparr> \<and>
   \<not> canonical 5 \<lparr>m_storage = [255 :: 8 word]\<rparr> \<and>
   canonical 5 (reset \<lparr>m_storage = [255 :: 8 word]\<rparr>) \<and>
   (\<exists>s'. set_all 5 \<lparr>m_storage = [255 :: 8 word]\<rparr> = Inr s' \<and> canonical 5 s') \<and>
   (\<exists>s'. flip 5 \<lparr>m_storage = [255 :: 8 word]\<rparr> = Inr s' \<and> canonical 5 s')"
proof -
  let ?s = "\<lparr>m_storage = [255 :: 8 word]\<rparr>"
  have t: "BitSet_typed 5 ?s"
    by (simp add: BitSet_typed_def Inner_bits_def NUM_CHUNKS_def)
  have n: "(5::nat) + 63 < 2 ^ 64" by simp
  have c: "\<not> canonical 5 ?s"
    by (simp add: canonical_and_mask [OF in_rangeI [OF t n]] NUM_CHUNKS_def LAST_MASK_def)
  show ?thesis
    using bulk_modifiers_establish_canonical [OF t] n t c by blast
qed

text \<open>
  Claim C10 as stated fails for the widths above \<open>2 ^ 64 - 64\<close>. For
  \<open>N = 2 ^ 64 - 1\<close> the storage array has no element, and \<open>set()\<close> and \<open>flip()\<close>
  write outside it and return no state.
\<close>

theorem bulk_modifiers_wrapped_width_counterexample:
  "BitSet_typed 18446744073709551615 \<lparr>m_storage = ([] :: 64 word list)\<rparr> \<and>
   set_all 18446744073709551615 \<lparr>m_storage = ([] :: 64 word list)\<rparr> = Inl UndefinedBehaviour \<and>
   flip 18446744073709551615 \<lparr>m_storage = ([] :: 64 word list)\<rparr> = Inl UndefinedBehaviour"
proof -
  have nc: "NUM_CHUNKS 18446744073709551615 = 0" by (simp add: NUM_CHUNKS_def)
  show ?thesis
    by (simp add: BitSet_typed_def Inner_bits_def nc set_all_def flip_def)
qed

section \<open>Flipping twice\<close>

text \<open>
  Claim C8, amended to the widths \<open>N \<le> 2 ^ 64 - 64\<close>. In a state in canonical form,
  \<open>flip()\<close> returns a state, and applying \<open>flip()\<close> to that state gives back the
  original storage, word for word.
\<close>

theorem flip_self_inverse:
  assumes t: "BitSet_typed N (s :: 'w::len word BitSet)" and n: "N + 63 < 2 ^ 64"
    and c: "canonical N s"
  shows "\<exists>s'. flip N s = Inr s' \<and> flip N s' = Inr s"
  using flip_Inr [OF in_rangeI [OF t n]] flip_flip [OF in_rangeI [OF t n] c] by blast

theorem flip_self_inverse_witness:
  "BitSet_typed 70 \<lparr>m_storage = [5, 3 :: 64 word]\<rparr> \<and>
   canonical 70 \<lparr>m_storage = [5, 3 :: 64 word]\<rparr> \<and>
   flip 70 \<lparr>m_storage = [5, 3 :: 64 word]\<rparr> = Inr \<lparr>m_storage = [- 6, 60 :: 64 word]\<rparr> \<and>
   flip 70 \<lparr>m_storage = [- 6, 60 :: 64 word]\<rparr> = Inr \<lparr>m_storage = [5, 3 :: 64 word]\<rparr>"
proof -
  let ?s = "\<lparr>m_storage = [5, 3 :: 64 word]\<rparr>"
  have t: "BitSet_typed 70 ?s"
    by (simp add: BitSet_typed_def Inner_bits_def NUM_CHUNKS_def)
  have n: "(70::nat) + 63 < 2 ^ 64" by simp
  have c: "canonical 70 ?s"
    by (simp add: canonical_and_mask [OF in_rangeI [OF t n]] NUM_CHUNKS_def LAST_MASK_def)
  have f: "flip 70 ?s = Inr \<lparr>m_storage = [- 6, 60 :: 64 word]\<rparr>"
    by (simp add: flip_def NUM_CHUNKS_def complement_as_size_t_def LAST_MASK_def)
  have "flip 70 \<lparr>m_storage = [- 6, 60 :: 64 word]\<rparr> = Inr ?s"
    using flip_self_inverse [OF t n c] f by simp
  then show ?thesis using t c f by blast
qed

text \<open>
  Claim C8 as stated fails for the widths above \<open>2 ^ 64 - 64\<close>. For
  \<open>N = 2 ^ 64 - 1\<close> the storage array has no element: from the only state, which is
  in canonical form, \<open>flip()\<close> writes outside the array and returns no state.
\<close>

theorem flip_wrapped_width_counterexample:
  "BitSet_typed 18446744073709551615 \<lparr>m_storage = ([] :: 64 word list)\<rparr> \<and>
   canonical 18446744073709551615 \<lparr>m_storage = ([] :: 64 word list)\<rparr> \<and>
   flip 18446744073709551615 \<lparr>m_storage = ([] :: 64 word list)\<rparr> = Inl UndefinedBehaviour"
proof -
  have nc: "NUM_CHUNKS 18446744073709551615 = 0" by (simp add: NUM_CHUNKS_def)
  show ?thesis
    by (simp add: BitSet_typed_def Inner_bits_def nc canonical_def flip_def)
qed

section \<open>The predicates any, none and all\<close>

text \<open>
  Claim C9, amended. In every well-typed state, \<open>any()\<close> is the negation of
  \<open>none()\<close>. For the widths \<open>N \<le> 2 ^ 64 - 64\<close>, \<open>all()\<close> returns a value, \<open>all()\<close>
  implies \<open>any()\<close>, and \<open>all()\<close> and \<open>none()\<close> do not hold together.
\<close>

theorem any_none_all:
  assumes t: "BitSet_typed N (s :: 'w::len word BitSet)"
  shows "any s = (\<not> none s) \<and>
         (N + 63 < 2 ^ 64 \<longrightarrow>
            (\<exists>a. all N s = Inr a \<and> (a \<longrightarrow> any s) \<and> \<not> (a \<and> none s)))"
proof -
  have an: "any s = (\<not> none s)" by (auto simp: any_def none_def list_ex_iff list_all_iff)
  have "\<exists>a. all N s = Inr a \<and> (a \<longrightarrow> any s) \<and> \<not> (a \<and> none s)" if n: "N + 63 < 2 ^ 64"
  proof -
    note r = in_rangeI [OF t n]
    obtain a where a: "all N s = Inr a" using all_in_range [OF r] by blast
    have "any s" if a
    proof -
      have "bit (LAST_MASK N) 0" by (simp add: bit_LAST_MASK)
      then have "bit (ucast (last (m_storage s)) :: 64 word) 0"
        using a that by (simp add: all_in_range [OF r])
      then have "last (m_storage s) \<noteq> 0" by (auto simp: bit_simps)
      moreover have "last (m_storage s) \<in> set (m_storage s)"
        using typed_nonempty [OF r] by simp
      ultimately show ?thesis unfolding any_def list_ex_iff by blast
    qed
    then show ?thesis using a an by blast
  qed
  then show ?thesis using an by blast
qed

theorem any_none_all_witness:
  "BitSet_typed 8 \<lparr>m_storage = [255 :: 8 word]\<rparr> \<and>
   all 8 \<lparr>m_storage = [255 :: 8 word]\<rparr> = Inr True \<and>
   any \<lparr>m_storage = [255 :: 8 word]\<rparr> \<and>
   \<not> none \<lparr>m_storage = [255 :: 8 word]\<rparr>"
proof -
  let ?b = "\<lparr>m_storage = [255 :: 8 word]\<rparr>"
  have t: "BitSet_typed 8 ?b"
    by (simp add: BitSet_typed_def Inner_bits_def NUM_CHUNKS_def)
  have n: "(8::nat) + 63 < 2 ^ 64" by simp
  have a: "all 8 ?b = Inr True"
    by (simp add: all_def NUM_CHUNKS_def LAST_MASK_def)
  have "any ?b \<and> \<not> none ?b"
    using any_none_all [OF t] n a by auto
  then show ?thesis using t a by blast
qed

text \<open>
  Claim C9 as stated fails for the widths above \<open>2 ^ 64 - 64\<close>. For
  \<open>N = 2 ^ 64 - 1\<close> the storage array has no element: \<open>none()\<close> holds and \<open>any()\<close>
  does not, and \<open>all()\<close> returns no value.
\<close>

theorem any_none_all_wrapped_width_counterexample:
  "BitSet_typed 18446744073709551615 \<lparr>m_storage = ([] :: 64 word list)\<rparr> \<and>
   none \<lparr>m_storage = ([] :: 64 word list)\<rparr> \<and> \<not> any \<lparr>m_storage = ([] :: 64 word list)\<rparr> \<and>
   all 18446744073709551615 \<lparr>m_storage = ([] :: 64 word list)\<rparr> = Inl UndefinedBehaviour"
proof -
  have nc: "NUM_CHUNKS 18446744073709551615 = 0" by (simp add: NUM_CHUNKS_def)
  show ?thesis
    by (simp add: BitSet_typed_def Inner_bits_def nc none_def any_def all_def)
qed

section \<open>Indexed access in a container of more than 64 bits\<close>

text \<open>
  What \<open>operator[]\<close> returns for an index below \<open>N\<close>: the bit at that index when
  \<open>N \<le> 64\<close>; when \<open>N > 64\<close>, whether the word holds a set bit at that index or above.
\<close>

lemma low_bit_of_drop_bit:
  "drop_bit n (x :: 'w::len word) AND 1 \<noteq> 0 \<longleftrightarrow> bit x n"
  by (simp add: and_one_eq bit_iff_odd_drop_bit odd_iff_mod_2_eq_one)

lemma drop_bit_nonzero_iff:
  "drop_bit n (x :: 'w::len word) \<noteq> 0 \<longleftrightarrow> (\<exists>j. n \<le> j \<and> bit x j)"
proof
  assume "drop_bit n x \<noteq> 0"
  then obtain i where "bit (drop_bit n x) i" by (auto simp: bit_eq_iff)
  then have "bit x (n + i)" by (simp add: bit_drop_bit_eq)
  then show "\<exists>j. n \<le> j \<and> bit x j" by (intro exI [of _ "n + i"]) simp
next
  assume "\<exists>j. n \<le> j \<and> bit x j"
  then obtain j where "n \<le> j" and "bit x j" by blast
  then have "bit (drop_bit n x) (j - n)" by (simp add: bit_drop_bit_eq)
  then show "drop_bit n x \<noteq> 0" by auto
qed

lemma operator_index_single_word:
  assumes t: "in_range N (s :: 'w::len word BitSet)" and N: "N \<le> 64" and p: "pos < N"
  shows "operator_index b N s pos = Inr (logical_bit s pos)"
proof -
  have "N \<le> LENGTH('w)" using t N by (simp add: in_range_iff Inner_bits_ge)
  then have "pos < max 32 LENGTH('w)" using p by simp
  moreover have "pos div 64 = 0" and "pos mod 64 = pos" using p N by simp_all
  ultimately show ?thesis
    using p N by (simp add: operator_index_def BITSET_ASSERT_def low_bit_of_drop_bit logical_bit_def)
qed

lemma operator_index_multi_word:
  assumes t: "in_range N (s :: 'w::len word BitSet)" and N: "64 < N" and p: "pos < N"
  shows "operator_index b N s pos =
           Inr (\<exists>j. pos mod 64 \<le> j \<and> bit (m_storage s ! (pos div 64)) j)"
proof -
  have "pos div 64 < NUM_CHUNKS N" using typed_index(1) [OF t p] typed_len [OF t] by simp
  then show ?thesis
    using p N by (simp add: operator_index_def BITSET_ASSERT_def Let_def drop_bit_nonzero_iff)
qed

text \<open>
  Claim C1 says that \<open>test(pos)\<close> and \<open>operator[](pos)\<close> return the bit at index
  \<open>pos\<close>. The branch of \<open>operator[]\<close> for \<open>N > 64\<close> converts the whole shifted
  word to \<^verbatim>\<open>bool\<close>, without the \<^verbatim>\<open>& 0x1\<close> of the branch for \<open>N \<le> 64\<close>. In
  a container of 65 bits, after \<open>reset()\<close> and \<open>set(1)\<close> the storage is \<open>{2, 0}\<close>;
  bit 0 is clear, and \<open>operator[](0)\<close> and \<open>test(0)\<close> return true.
\<close>

theorem operator_index_reads_higher_bits:
  "set_pos Debug 65 (reset (BitSet_default 65)) 1 True = Inr \<lparr>m_storage = [2, 0 :: 64 word]\<rparr> \<and>
   operator_index Debug 65 \<lparr>m_storage = [2, 0 :: 64 word]\<rparr> 0 = Inr True \<and>
   test Release 65 \<lparr>m_storage = [2, 0 :: 64 word]\<rparr> 0 = Inr True \<and>
   \<not> logical_bit \<lparr>m_storage = [2, 0 :: 64 word]\<rparr> 0"
proof -
  have nc: "NUM_CHUNKS 65 = Suc (Suc 0)" by (simp add: NUM_CHUNKS_def)
  show ?thesis
    by (simp add: set_pos_def reset_def BitSet_default_def nc BITSET_ASSERT_def
        operator_index_def test_def logical_bit_def)
qed

section \<open>Setting one bit after a reset\<close>

lemma popcount_card: "popcount (x :: 'w::len word) = card {i. bit x i}"
proof -
  have "popcount x = length (filter (bit x) [0..<LENGTH('w)])"
    by (simp add: popcount_def bits_lsb_def filter_map comp_def)
  also have "\<dots> = card ({i. bit x i} \<inter> set [0..<LENGTH('w)])"
    by (rule distinct_length_filter) simp
  also have "{i. bit x i} \<inter> set [0..<LENGTH('w)] = {i. bit x i}"
    by (auto dest: bit_imp_le_length)
  finally show ?thesis .
qed

lemma popcount_single_bit:
  "k < LENGTH('w::len) \<Longrightarrow> popcount (push_bit k 1 :: 'w word) = 1"
proof -
  assume k: "k < LENGTH('w)"
  have "{i. bit (push_bit k 1 :: 'w word) i} = {k}" using k by (auto simp: bit_simps)
  then show ?thesis by (simp del: push_bit_of_1 add: popcount_card)
qed

text \<open>
  In a container of at most 64 bits, after \<open>reset()\<close> and \<open>set(pos)\<close> the index
  \<open>pos\<close> tests true, \<open>count()\<close> is 1 and every other index tests false.
\<close>

lemma reset_set_single_word:
  assumes t: "in_range N (s :: 'w::len word BitSet)" and N: "N \<le> 64" and p: "pos < N"
  shows "\<exists>s'. set_pos b N (reset s) pos True = Inr s' \<and>
              test b N s' pos = Inr True \<and> count s' = 1 \<and>
              (\<forall>q<N. q \<noteq> pos \<longrightarrow> test b N s' q = Inr False)"
proof -
  define s' where "s' = (reset s)\<lparr>m_storage := [push_bit pos 1 :: 'w word]\<rparr>"
  have pW: "pos < LENGTH('w)" using t N p Inner_bits_ge [OF N] by (simp add: in_range_iff)
  have "NUM_CHUNKS N = 1" using t N by (simp add: in_range_iff NUM_CHUNKS_small)
  then have len: "length (m_storage s) = 1" using t by (simp add: in_range_iff)
  then obtain x where x: "m_storage s = [x]" by (cases "m_storage s") auto
  have d: "pos div 64 = 0" "pos mod 64 = pos" using p N by simp_all
  have r: "set_pos b N (reset s) pos True = Inr s'"
    unfolding set_pos_True [OF typed_reset [OF t] p] s'_def d
    by (simp add: reset_def x)
  have t': "in_range N s'" using t by (simp add: in_range_iff s'_def reset_def x)
  have tst: "test b N s' q = Inr (q = pos)" if "q < N" for q
  proof -
    have "q div 64 = 0" "q mod 64 = q" using that N by simp_all
    then show ?thesis
      unfolding test_def operator_index_single_word [OF t' N that]
      using pW by (auto simp del: push_bit_of_1 simp add: logical_bit_def s'_def bit_simps)
  qed
  have cnt: "count s' = 1"
    by (simp del: push_bit_of_1 add: count_def s'_def popcount_single_bit [OF pW])
  show ?thesis using r tst p cnt by auto
qed

text \<open>
  After \<open>reset()\<close> and \<open>set(pos)\<close> in a container of more than 64 bits, \<open>test(q)\<close>
  is true exactly for the indices \<open>q\<close> of the same word that are not above \<open>pos\<close>.
\<close>

lemma reset_set_multi_word:
  assumes t: "in_range N (s :: 'w::len word BitSet)" and N: "64 < N"
    and p: "pos < N" and q: "q < N"
  shows "\<exists>s'. set_pos b N (reset s) pos True = Inr s' \<and>
              test b N s' q = Inr (q div 64 = pos div 64 \<and> q mod 64 \<le> pos mod 64)"
proof -
  define s' where "s' = (reset s)\<lparr>m_storage := (m_storage (reset s))[pos div 64 :=
                  m_storage (reset s) ! (pos div 64) OR push_bit (pos mod 64) 1]\<rparr>"
  note tr = typed_reset [OF t]
  have W: "LENGTH('w) = 64" using t N by (simp add: in_range_iff Inner_bits_big)
  have r: "set_pos b N (reset s) pos True = Inr s'"
    unfolding s'_def by (rule set_pos_True [OF tr p])
  have t': "in_range N s'" using tr by (simp add: s'_def in_range_iff)
  have pi: "pos div 64 < length (m_storage s)" and qi: "q div 64 < length (m_storage s)"
    using typed_index(1) [OF t p] typed_index(1) [OF t q] by simp_all
  have word: "m_storage s' ! (q div 64) =
                (if q div 64 = pos div 64 then push_bit (pos mod 64) 1 else 0)"
    using pi qi by (simp del: push_bit_of_1 add: s'_def reset_def nth_list_update)
  have "(\<exists>j. q mod 64 \<le> j \<and> bit (m_storage s' ! (q div 64)) j) \<longleftrightarrow>
          q div 64 = pos div 64 \<and> q mod 64 \<le> pos mod 64"
    unfolding word by (auto simp del: push_bit_of_1 simp add: bit_simps W)
  then have "test b N s' q = Inr (q div 64 = pos div 64 \<and> q mod 64 \<le> pos mod 64)"
    unfolding test_def operator_index_multi_word [OF t' N q] by simp
  then show ?thesis using r by blast
qed

text \<open>
  Claim C2 says that after \<open>reset()\<close> and \<open>set(pos)\<close> every index other than
  \<open>pos\<close> tests false. In a container of 65 bits, from the storage \<open>{7, 1}\<close>,
  \<open>reset()\<close> and \<open>set(1)\<close> give the storage \<open>{2, 0}\<close>: \<open>test(1)\<close> is true and
  \<open>count()\<close> is 1, and \<open>test(0)\<close> is true as well.
\<close>

theorem reset_set_test_lower_index:
  "set_pos Release 65 (reset \<lparr>m_storage = [7, 1 :: 64 word]\<rparr>) 1 True
     = Inr \<lparr>m_storage = [2, 0 :: 64 word]\<rparr> \<and>
   test Release 65 \<lparr>m_storage = [2, 0 :: 64 word]\<rparr> 1 = Inr True \<and>
   count \<lparr>m_storage = [2, 0 :: 64 word]\<rparr> = 1 \<and>
   test Release 65 \<lparr>m_storage = [2, 0 :: 64 word]\<rparr> 0 = Inr True"
  by (simp add: set_pos_def reset_def NUM_CHUNKS_def BITSET_ASSERT_def
      operator_index_def test_def count_def popcount_def bits_lsb_def upt_rec)

section \<open>The assertions of the constructors\<close>

text \<open>\<^verbatim>\<open>std::bit_width\<close> is the least number of low bits that hold every set bit.\<close>

lemma rev_map_upt: "rev (map f [0..<n]) = map (\<lambda>i. f (n - Suc i)) [0..<n]"
  by (rule nth_equalityI) (simp_all add: rev_nth)

lemma countl_zero_char:
  "countl_zero (x :: 'w::len word) = k \<longleftrightarrow>
     k \<le> LENGTH('w) \<and> (\<forall>j<k. \<not> bit x (LENGTH('w) - Suc j)) \<and>
     (k < LENGTH('w) \<longrightarrow> bit x (LENGTH('w) - Suc k))"
  unfolding countl_zero_def bits_lsb_def rev_map_upt by (simp add: takeWhile_upt_char)

lemma bit_width_le_iff:
  "bit_width (x :: 'w::len word) \<le> n \<longleftrightarrow> (\<forall>j. bit x j \<longrightarrow> j < n)"
proof -
  define k where "k = countl_zero x"
  have kW: "k \<le> LENGTH('w)" and high: "\<forall>j<k. \<not> bit x (LENGTH('w) - Suc j)"
    and top: "k < LENGTH('w) \<longrightarrow> bit x (LENGTH('w) - Suc k)"
    using countl_zero_char [of x k] by (simp_all add: k_def)
  have bw: "bit_width x = LENGTH('w) - k" by (simp add: bit_width_def k_def)
  show ?thesis
  proof
    assume le: "bit_width x \<le> n"
    show "\<forall>j. bit x j \<longrightarrow> j < n"
    proof (intro allI impI)
      fix j assume b: "bit x j"
      have jW: "j < LENGTH('w)" using b by (rule bit_imp_le_length)
      have "j < LENGTH('w) - k"
      proof (rule ccontr)
        assume "\<not> j < LENGTH('w) - k"
        then have "LENGTH('w) - Suc j < k" using jW by arith
        then have "\<not> bit x (LENGTH('w) - Suc (LENGTH('w) - Suc j))" using high by blast
        moreover have "LENGTH('w) - Suc (LENGTH('w) - Suc j) = j" using jW by arith
        ultimately show False using b by simp
      qed
      then show "j < n" using le bw by simp
    qed
  next
    assume a: "\<forall>j. bit x j \<longrightarrow> j < n"
    show "bit_width x \<le> n"
    proof (cases "k < LENGTH('w)")
      case True
      then have "LENGTH('w) - Suc k < n" using top a by blast
      then show ?thesis using bw by arith
    next
      case False
      then show ?thesis using bw by simp
    qed
  qed
qed

text \<open>
  The two constructors in a debug build: for \<open>N \<le> 64\<close> the assertion fails exactly
  when a bit at or beyond \<open>N\<close> is set; for \<open>N > 64\<close> it fails exactly when the last
  word has a bit at or beyond the numeric value of \<open>LAST_MASK\<close>.
\<close>

lemma BitSet_of_word_debug:
  "BitSet_of_word Debug N (w :: 'w::len word) =
     (if \<exists>j\<ge>N. bit w j then Inl AssertionFailed else Inr \<lparr>m_storage = [w]\<rparr>)"
  by (auto simp: BitSet_of_word_def BITSET_ASSERT_def bit_width_le_iff not_less)

lemma BitSet_of_array_debug:
  "NUM_CHUNKS N \<noteq> 0 \<Longrightarrow>
   BitSet_of_array Debug N (storage :: 'w::len word list) =
     (if \<exists>j\<ge>unat (LAST_MASK N). bit (storage ! (NUM_CHUNKS N - 1)) j
      then Inl AssertionFailed else Inr \<lparr>m_storage = storage\<rparr>)"
  by (auto simp: BitSet_of_array_def BITSET_ASSERT_def bit_width_le_iff not_less)

lemma LAST_MASK_eq_mask: "LAST_MASK N = mask ((N - 1) mod 64 + 1)"
  by (rule bit_word_eqI) (auto simp: bit_LAST_MASK bit_simps)

lemma unat_LAST_MASK: "unat (LAST_MASK N) = 2 ^ ((N - 1) mod 64 + 1) - 1"
proof -
  define k where "k = (N - 1) mod 64 + 1"
  have k: "min LENGTH(64) k = k" by (simp add: k_def)
  have "uint (mask k :: 64 word) = (mask k :: int)"
    by (simp only: uint_mask_eq k)
  also have "(mask k :: int) = 2 ^ k - 1" by (rule mask_eq_exp_minus_1)
  finally have "unat (mask k :: 64 word) = nat (2 ^ k - 1)"
    by (simp only: unat_eq_nat_uint)
  also have "nat (2 ^ k - 1) = 2 ^ k - 1"
    by (simp add: nat_diff_distrib nat_power_eq)
  finally show ?thesis by (simp only: LAST_MASK_eq_mask k_def)
qed

lemma BitSet_of_release:
  "BitSet_of_word Release N w = Inr \<lparr>m_storage = [w]\<rparr>"
  "NUM_CHUNKS N \<noteq> 0 \<Longrightarrow> BitSet_of_array Release N storage = Inr \<lparr>m_storage = storage\<rparr>"
  by (simp_all add: BitSet_of_word_def BitSet_of_array_def BITSET_ASSERT_def)

lemma BitSet_of_array_accepts:
  assumes N: "0 < N" and B: "N + 63 < 2 ^ 64"
    and ok: "\<forall>j. bit (storage ! (NUM_CHUNKS N - 1)) j \<longrightarrow> 64 * (NUM_CHUNKS N - 1) + j < N"
  shows "BitSet_of_array b N storage = Inr \<lparr>m_storage = storage\<rparr>"
proof (cases b)
  case Release
  then show ?thesis using NUM_CHUNKS_pos [OF N B] by (simp add: BitSet_of_release)
next
  case Debug
  have nz: "NUM_CHUNKS N \<noteq> 0" using NUM_CHUNKS_pos [OF N B] by simp
  have "j < unat (LAST_MASK N)" if "bit (storage ! (NUM_CHUNKS N - 1)) j" for j
  proof -
    have "bit (LAST_MASK N) j" using that ok by (simp add: bit_LAST_MASK_pos [OF N B])
    then have "j < (N - 1) mod 64 + 1" by (simp add: bit_LAST_MASK)
    moreover have "(N - 1) mod 64 + 1 < 2 ^ ((N - 1) mod 64 + 1)" by (rule less_exp)
    ultimately show ?thesis unfolding unat_LAST_MASK by arith
  qed
  then have "\<not> (\<exists>j\<ge>unat (LAST_MASK N). bit (storage ! (NUM_CHUNKS N - 1)) j)"
    by (auto simp: not_le)
  then show ?thesis unfolding Debug BitSet_of_array_debug [OF nz] by simp
qed

text \<open>
  Claim C7 says that in a debug build the constructors fail their assertion exactly
  when the supplied value has a bit at a position at or beyond \<open>N\<close>. The constructor
  for \<open>N > 64\<close> compares the bit width of the last word with the value of
  \<^verbatim>\<open>LAST_MASK\<close>. For \<open>N = 66\<close> that value is 3, so the last word 4 (bit width 3,
  the bit at position 66) passes the assertion. The constructor for \<open>N \<le> 64\<close>
  compares the bit width with \<open>N\<close>, and rejects the word 4 for \<open>N = 2\<close>.
\<close>

theorem array_constructor_accepts_padding_bit:
  "BitSet_of_array Debug 66 [0, 4 :: 64 word] = Inr \<lparr>m_storage = [0, 4 :: 64 word]\<rparr> \<and>
   logical_bit \<lparr>m_storage = [0, 4 :: 64 word]\<rparr> 66 \<and>
   BitSet_of_word Debug 2 (4 :: 8 word) = Inl AssertionFailed"
  by (simp add: BitSet_of_array_def BitSet_of_word_def BITSET_ASSERT_def NUM_CHUNKS_def
      LAST_MASK_def bit_width_def countl_zero_def bits_lsb_def upt_rec logical_bit_def)

end
